theory Spec2Isabelle
  imports Main "HOL-Library.Word" "HOL-Library.Code_Target_Numeral"
begin

unbundle bit_operations_syntax

section \<open>Parse tree (\<open>struct Node\<close>, \<open>struct ParseTree\<close>)\<close>

text \<open>
  \<open>Node\<close> is a kind tag with a union of two child indices and one character. The
  combinators keep their operands as indices into the arena \<open>ParseTree::nodes\<close>.
\<close>

datatype node =
    Alternation nat nat
  | Concatenation nat nat
  | Repetition nat
  | OptionalRepetition nat
  | Optional nat
  | Atom char

record parse_tree =
  flags :: int
  nodes :: "node list"

definition BEGIN_ANCHORED :: int where
  "BEGIN_ANCHORED = 1"

definition END_ANCHORED :: int where
  "END_ANCHORED = 2"

text \<open>
  The value of \<open>uint32_t x = v.size() - 1\<close>: the size is unsigned, so on an empty
  vector the subtraction wraps and the conversion keeps the low 32 bits.
\<close>

definition last_index :: "'a list \<Rightarrow> nat" where
  "last_index xs = nat ((int (length xs) - 1) mod 4294967296)"

section \<open>Parser (\<open>struct Parser\<close>)\<close>

text \<open>
  The pattern is a NUL-terminated C string. The parser's \<open>pointer\<close> is modelled by the
  characters from the pointer on; \<open>*pointer\<close> past the last character reads the
  terminator. \<open>++pointer\<close> is \<open>tl\<close>; the source advances only after it has seen a
  character other than NUL.
\<close>

definition peek :: "string \<Rightarrow> char" where
  "peek p = (case p of [] \<Rightarrow> CHR 0x00 | c # _ \<Rightarrow> c)"

text \<open>\<open>isalpha\<close>, \<open>isdigit\<close> and \<open>tolower\<close> of the C locale, on byte values.\<close>

definition tolower :: "char \<Rightarrow> char" where
  "tolower c = (let n = (of_char c :: nat) in
     if 65 \<le> n \<and> n \<le> 90 then char_of (n + 32) else c)"

definition isalpha :: "char \<Rightarrow> bool" where
  "isalpha c = (let n = (of_char c :: nat) in
     (97 \<le> n \<and> n \<le> 122) \<or> (65 \<le> n \<and> n \<le> 90))"

definition isdigit :: "char \<Rightarrow> bool" where
  "isdigit c = (let n = (of_char c :: nat) in 48 \<le> n \<and> n \<le> 57)"

type_synonym presult = "bool \<times> string \<times> node list"

text \<open>
  Every parsing function takes the pointer and the node arena and returns its \<open>bool\<close>
  together with the pointer and the arena it leaves behind: a function that fails keeps
  what it has consumed and appended. The two \<open>while\<close> loops are the functions
  \<open>alternation_loop\<close> and \<open>concatenation_loop\<close>, which carry the local \<open>first\<close>.
\<close>

function (domintros) parse :: "string \<Rightarrow> node list \<Rightarrow> presult"
  and parse_alternation :: "string \<Rightarrow> node list \<Rightarrow> presult"
  and alternation_loop :: "nat \<Rightarrow> string \<Rightarrow> node list \<Rightarrow> presult"
  and parse_concatenation :: "string \<Rightarrow> node list \<Rightarrow> presult"
  and concatenation_loop :: "nat \<Rightarrow> string \<Rightarrow> node list \<Rightarrow> presult"
  and parse_quantifier :: "string \<Rightarrow> node list \<Rightarrow> presult"
  and parse_unit :: "string \<Rightarrow> node list \<Rightarrow> presult"
  and parse_group :: "string \<Rightarrow> node list \<Rightarrow> presult"
where
  "parse p ns = parse_alternation p ns"
| "parse_alternation p ns =
     (case parse_concatenation p ns of (ok, p1, ns1) \<Rightarrow>
        if \<not> ok then (False, p1, ns1)
        else alternation_loop (last_index ns1) p1 ns1)"
| "alternation_loop first p ns =
     (if peek p = CHR ''|'' then
        (case parse_concatenation (tl p) ns of (ok, p1, ns1) \<Rightarrow>
           if \<not> ok then (False, p1, ns1)
           else let second = last_index ns1;
                    ns2 = ns1 @ [Alternation first second]
                in alternation_loop (last_index ns2) p1 ns2)
      else (True, p, ns))"
| "parse_concatenation p ns =
     (case parse_quantifier p ns of (ok, p1, ns1) \<Rightarrow>
        if \<not> ok then (False, p1, ns1)
        else concatenation_loop (last_index ns1) p1 ns1)"
| "concatenation_loop first p ns =
     (case parse_quantifier p ns of (ok, p1, ns1) \<Rightarrow>
        if ok then
          (let second = last_index ns1;
               ns2 = ns1 @ [Concatenation first second]
           in concatenation_loop (last_index ns2) p1 ns2)
        else (True, p1, ns1))"
| "parse_quantifier p ns =
     (case parse_unit p ns of (ok, p1, ns1) \<Rightarrow>
        if \<not> ok then (False, p1, ns1)
        else let first = last_index ns1 in
          if peek p1 = CHR ''?'' then (True, tl p1, ns1 @ [Optional first])
          else if peek p1 = CHR ''*'' then (True, tl p1, ns1 @ [OptionalRepetition first])
          else if peek p1 = CHR ''+'' then (True, tl p1, ns1 @ [Repetition first])
          else (True, p1, ns1))"
| "parse_unit p ns =
     (if isalpha (tolower (peek p)) \<or> isdigit (peek p) \<or> peek p = CHR ''_''
      then (True, tl p, ns @ [Atom (peek p)])
      else if peek p = CHR ''(''
      then (case parse_group p ns of (ok, p1, ns1) \<Rightarrow>
              if \<not> ok then (False, p1, ns1) else (True, p1, ns1))
      else (False, p, ns))"
| "parse_group p ns =
     (if peek p \<noteq> CHR ''('' then (False, p, ns)
      else (case parse (tl p) ns of (ok, p1, ns1) \<Rightarrow>
              if \<not> ok then (False, p1, ns1)
              else if peek p1 \<noteq> CHR '')'' then (False, p1, ns1)
              else (True, tl p1, ns1)))"
  by pat_completeness auto

abbreviation parse_dom where
  "parse_dom \<equiv> parse_parse_alternation_alternation_loop_parse_concatenation_concatenation_loop_parse_quantifier_parse_unit_parse_group_dom"

lemmas parse_pinduct =
  parse_parse_alternation_alternation_loop_parse_concatenation_concatenation_loop_parse_quantifier_parse_unit_parse_group.pinduct

lemmas parse_termination_rule =
  "parse_parse_alternation_alternation_loop_parse_concatenation_concatenation_loop_parse_quantifier_parse_unit_parse_group.termination"

text \<open>
  Termination. The loops call themselves on the pointer a sub-parser returns, so the
  measure needs to know that no parser moves the pointer backwards and that a successful
  \<open>parse_quantifier\<close> moves it forwards. Both are proved on the domain of the functions
  first.
\<close>

definition shrinks :: "string \<Rightarrow> presult \<Rightarrow> bool" where
  "shrinks p r = (length (fst (snd r)) \<le> length p)"

definition consumes :: "string \<Rightarrow> presult \<Rightarrow> bool" where
  "consumes p r =
     (length (fst (snd r)) \<le> length p \<and> (fst r \<longrightarrow> length (fst (snd r)) < length p))"

lemma tl_shorter: "peek p \<noteq> CHR 0x00 \<Longrightarrow> length (tl p) < length p"
  by (cases p) (auto simp: peek_def)

lemma atom_char_not_nul:
  "isalpha (tolower c) \<or> isdigit c \<or> c = CHR ''_'' \<Longrightarrow> c \<noteq> CHR 0x00"
  by (auto simp: isalpha_def isdigit_def tolower_def)

lemma parse_dom_consumes:
  "parse_dom (Inl (Inl (Inl (p, ns)))) \<Longrightarrow> consumes p (parse p ns)"
  "parse_dom (Inl (Inl (Inr (p, ns)))) \<Longrightarrow> consumes p (parse_alternation p ns)"
  "parse_dom (Inl (Inr (Inl (first, p, ns)))) \<Longrightarrow> shrinks p (alternation_loop first p ns)"
  "parse_dom (Inl (Inr (Inr (p, ns)))) \<Longrightarrow> consumes p (parse_concatenation p ns)"
  "parse_dom (Inr (Inl (Inl (first, p, ns)))) \<Longrightarrow> shrinks p (concatenation_loop first p ns)"
  "parse_dom (Inr (Inl (Inr (p, ns)))) \<Longrightarrow> consumes p (parse_quantifier p ns)"
  "parse_dom (Inr (Inr (Inl (p, ns)))) \<Longrightarrow> consumes p (parse_unit p ns)"
  "parse_dom (Inr (Inr (Inr (p, ns)))) \<Longrightarrow> consumes p (parse_group p ns)"
proof (induct rule: parse_pinduct)
  case (1 p ns)
  then show ?case by (simp add: parse.psimps)
next
  case (2 p ns)
  obtain ok p1 ns1 where r: "parse_concatenation p ns = (ok, p1, ns1)"
    by (cases "parse_concatenation p ns") auto
  show ?case
  proof (cases ok)
    case True
    have "shrinks p1 (alternation_loop (last_index ns1) p1 ns1)"
      using "2.hyps"(3)[of ok "(p1, ns1)" p1 ns1] r True by simp
    then show ?thesis
      using "2.hyps"(1,2) r True
      by (simp add: parse_alternation.psimps consumes_def shrinks_def)
  next
    case False
    then show ?thesis
      using "2.hyps"(1,2) r
      by (simp add: parse_alternation.psimps consumes_def shrinks_def)
  qed
next
  case (3 first p ns)
  show ?case
  proof (cases "peek p = CHR ''|''")
    case bar: True
    then have tl: "length (tl p) < length p" using tl_shorter[of p] by simp
    obtain ok p1 ns1 where r: "parse_concatenation (tl p) ns = (ok, p1, ns1)"
      by (cases "parse_concatenation (tl p) ns") auto
    have c: "consumes (tl p) (ok, p1, ns1)" using "3.hyps"(2) bar r by simp
    show ?thesis
    proof (cases ok)
      case True
      have "shrinks p1 (alternation_loop (last_index (ns1 @ [Alternation first (last_index ns1)])) p1
               (ns1 @ [Alternation first (last_index ns1)]))"
        using "3.hyps"(3)[OF bar, of ok "(p1, ns1)" p1 ns1] r True by simp
      then show ?thesis
        using "3.hyps"(1) r True bar c tl
        by (simp add: alternation_loop.psimps consumes_def shrinks_def Let_def)
    next
      case False
      then show ?thesis
        using "3.hyps"(1) r bar c tl
        by (simp add: alternation_loop.psimps consumes_def shrinks_def)
    qed
  next
    case False
    then show ?thesis
      using "3.hyps"(1) by (simp add: alternation_loop.psimps shrinks_def)
  qed
next
  case (4 p ns)
  obtain ok p1 ns1 where r: "parse_quantifier p ns = (ok, p1, ns1)"
    by (cases "parse_quantifier p ns") auto
  show ?case
  proof (cases ok)
    case True
    have "shrinks p1 (concatenation_loop (last_index ns1) p1 ns1)"
      using "4.hyps"(3)[of ok "(p1, ns1)" p1 ns1] r True by simp
    then show ?thesis
      using "4.hyps"(1,2) r True
      by (simp add: parse_concatenation.psimps consumes_def shrinks_def)
  next
    case False
    then show ?thesis
      using "4.hyps"(1,2) r
      by (simp add: parse_concatenation.psimps consumes_def shrinks_def)
  qed
next
  case (5 first p ns)
  obtain ok p1 ns1 where r: "parse_quantifier p ns = (ok, p1, ns1)"
    by (cases "parse_quantifier p ns") auto
  show ?case
  proof (cases ok)
    case True
    have "shrinks p1 (concatenation_loop (last_index (ns1 @ [Concatenation first (last_index ns1)])) p1
             (ns1 @ [Concatenation first (last_index ns1)]))"
      using "5.hyps"(3)[of ok "(p1, ns1)" p1 ns1] r True by simp
    then show ?thesis
      using "5.hyps"(1,2) r True
      by (simp add: concatenation_loop.psimps consumes_def shrinks_def Let_def)
  next
    case False
    then show ?thesis
      using "5.hyps"(1,2) r
      by (simp add: concatenation_loop.psimps consumes_def shrinks_def)
  qed
next
  case (6 p ns)
  obtain ok p1 ns1 where r: "parse_unit p ns = (ok, p1, ns1)"
    by (cases "parse_unit p ns") auto
  have "length (tl p1) \<le> length p1" by simp
  then show ?case
    using "6.hyps"(1,2) r
    by (auto simp: parse_quantifier.psimps consumes_def Let_def)
next
  case (7 p ns)
  have "isalpha (tolower (peek p)) \<or> isdigit (peek p) \<or> peek p = CHR ''_''
      \<Longrightarrow> length (tl p) < length p"
    using atom_char_not_nul[of "peek p"] tl_shorter[of p] by blast
  then show ?case
    using "7.hyps"
    by (auto simp: parse_unit.psimps consumes_def split: prod.splits)
next
  case (8 p ns)
  show ?case
  proof (cases "peek p = CHR ''(''")
    case True
    then have tl: "length (tl p) < length p" using tl_shorter[of p] by simp
    obtain ok p1 ns1 where r: "parse (tl p) ns = (ok, p1, ns1)"
      by (cases "parse (tl p) ns") auto
    have "consumes (tl p) (ok, p1, ns1)" using "8.hyps"(2) True r by simp
    moreover have "length (tl p1) \<le> length p1" by simp
    ultimately show ?thesis
      using "8.hyps"(1) True r tl
      by (auto simp: parse_group.psimps consumes_def)
  next
    case False
    then show ?thesis using "8.hyps"(1) by (simp add: parse_group.psimps consumes_def)
  qed
qed

lemma parse_total: "parse_dom x"
proof -
  have "All parse_dom"
    apply (rule parse_termination_rule[where R = "inv_image (less_than <*lex*> less_than)
      (\<lambda>x. case x of
          Inl (Inl (Inl (p, ns))) \<Rightarrow> (length p, 7::nat)
        | Inl (Inl (Inr (p, ns))) \<Rightarrow> (length p, 6)
        | Inl (Inr (Inl (f, p, ns))) \<Rightarrow> (length p, 5)
        | Inl (Inr (Inr (p, ns))) \<Rightarrow> (length p, 4)
        | Inr (Inl (Inl (f, p, ns))) \<Rightarrow> (length p, 3)
        | Inr (Inl (Inr (p, ns))) \<Rightarrow> (length p, 2)
        | Inr (Inr (Inl (p, ns))) \<Rightarrow> (length p, 1)
        | Inr (Inr (Inr (p, ns))) \<Rightarrow> (length p, 0))"])
    subgoal by auto
    subgoal by simp
    subgoal by simp
    subgoal for p ns x y xa ya
      using parse_dom_consumes(4)[of p ns]
      by (cases "parse_concatenation p ns") (auto simp: consumes_def)
    subgoal for first p using tl_shorter[of p] by simp
    subgoal for first p ns x y xa ya
      using tl_shorter[of p] parse_dom_consumes(4)[of "tl p" ns]
      by (cases "parse_concatenation (tl p) ns") (auto simp: consumes_def)
    subgoal by simp
    subgoal for p ns x y xa ya
      using parse_dom_consumes(6)[of p ns]
      by (cases "parse_quantifier p ns") (auto simp: consumes_def)
    subgoal by simp
    subgoal for first p ns x y xa ya
      using parse_dom_consumes(6)[of p ns]
      by (cases "parse_quantifier p ns") (auto simp: consumes_def)
    subgoal by simp
    subgoal by simp
    subgoal for p using tl_shorter[of p] by simp
    done
  then show ?thesis by blast
qed

termination parse
  using parse_total by blast

lemmas parser_simps = parse.simps parse_alternation.simps alternation_loop.simps
  parse_concatenation.simps concatenation_loop.simps parse_quantifier.simps
  parse_unit.simps parse_group.simps

declare parser_simps [simp del]

lemmas parse_consumes = parse_dom_consumes[OF parse_total]

text \<open>
  \<open>build_parse_tree\<close>: an optional leading \<open>^\<close>, then the loop \<open>while (*pointer != 0)\<close>,
  here \<open>build_loop\<close>, which stops at a \<open>$\<close> with \<open>break\<close> and otherwise calls
  \<open>parse\<close>. The result is the returned \<open>bool\<close>, the final pointer and the tree.
\<close>

function build_loop :: "string \<Rightarrow> parse_tree \<Rightarrow> bool \<times> string \<times> parse_tree" where
  "build_loop p t =
     (if peek p \<noteq> CHR 0x00 then
        (if peek p = CHR ''$''
         then (True, tl p, t\<lparr>flags := flags t OR END_ANCHORED\<rparr>)
         else (case parse p (nodes t) of (ok, p1, ns1) \<Rightarrow>
                 if \<not> ok then (False, p1, t\<lparr>nodes := ns1\<rparr>)
                 else build_loop p1 (t\<lparr>nodes := ns1\<rparr>)))
      else (True, p, t))"
  by pat_completeness auto
termination
proof (relation "measure (\<lambda>(p, t). length p)", goal_cases)
  case 1
  show ?case by simp
next
  case (2 p t x y xa ya)
  then show ?case
    using parse_consumes(1)[of p "nodes t"]
    by (cases "parse p (nodes t)") (auto simp: consumes_def)
qed

declare build_loop.simps [simp del]

definition build_parse_tree :: "string \<Rightarrow> parse_tree \<Rightarrow> bool \<times> string \<times> parse_tree" where
  "build_parse_tree text t =
     (if peek text = CHR ''^''
      then build_loop (tl text) (t\<lparr>flags := flags t OR BEGIN_ANCHORED\<rparr>)
      else build_loop text t)"

text \<open>A default-constructed \<open>ParseTree\<close>, and the parser run on it as \<open>main\<close> does.\<close>

definition empty_tree :: parse_tree where
  "empty_tree = \<lparr>flags = 0, nodes = []\<rparr>"

definition parse_pattern :: "string \<Rightarrow> bool \<times> parse_tree" where
  "parse_pattern text =
     (case build_parse_tree text empty_tree of (ok, p, t) \<Rightarrow> (ok, t))"

lemmas parser_eval = parser_simps build_loop.simps build_parse_tree_def parse_pattern_def
  empty_tree_def peek_def isalpha_def isdigit_def tolower_def last_index_def
  BEGIN_ANCHORED_def END_ANCHORED_def


section \<open>What the parser consumes\<close>

text \<open>
  The characters the parsing functions step over: atoms and the operators
  \<open>( ) | ? * +\<close>. The anchors \<open>^\<close> and \<open>$\<close> are consumed by \<open>build_parse_tree\<close> only.
  A quantifier is consumed only right after a unit, that is after an atom or a \<open>)\<close>.
\<close>

definition inner_char :: "char \<Rightarrow> bool" where
  "inner_char c = (isalpha (tolower c) \<or> isdigit c \<or> c = CHR ''_'' \<or> c \<in> set ''()|?*+'')"

definition quantifier_char :: "char \<Rightarrow> bool" where
  "quantifier_char c = (c \<in> set ''?*+'')"

definition unit_end :: "char \<Rightarrow> bool" where
  "unit_end c = (isalpha (tolower c) \<or> isdigit c \<or> c = CHR ''_'' \<or> c = CHR '')'')"

definition well_quantified :: "string \<Rightarrow> bool" where
  "well_quantified u =
     (\<forall>j < length u. quantifier_char (u ! j) \<longrightarrow> 0 < j \<and> unit_end (u ! (j - 1)))"

definition consumed :: "string \<Rightarrow> bool" where
  "consumed u = ((\<forall>c \<in> set u. inner_char c) \<and> well_quantified u)"

definition advances :: "string \<Rightarrow> presult \<Rightarrow> bool" where
  "advances p r = (\<exists>u. p = u @ fst (snd r) \<and> consumed u)"

definition advances_unit :: "string \<Rightarrow> presult \<Rightarrow> bool" where
  "advances_unit p r =
     (\<exists>u. p = u @ fst (snd r) \<and> consumed u \<and> (fst r \<longrightarrow> u \<noteq> [] \<and> unit_end (last u)))"

lemma quantifier_not_unit_end: "quantifier_char c \<Longrightarrow> \<not> unit_end c"
  by (auto simp: quantifier_char_def unit_end_def isalpha_def isdigit_def tolower_def)

lemma consumed_Nil: "consumed []"
  by (simp add: consumed_def well_quantified_def)

lemma consumed_single: "inner_char c \<Longrightarrow> \<not> quantifier_char c \<Longrightarrow> consumed [c]"
  by (simp add: consumed_def well_quantified_def)

lemma consumed_append: "consumed u \<Longrightarrow> consumed v \<Longrightarrow> consumed (u @ v)"
proof -
  assume u: "consumed u" and v: "consumed v"
  have "well_quantified (u @ v)"
    unfolding well_quantified_def
  proof (intro allI impI)
    fix j
    assume j: "j < length (u @ v)" and q: "quantifier_char ((u @ v) ! j)"
    show "0 < j \<and> unit_end ((u @ v) ! (j - 1))"
    proof (cases "j < length u")
      case True
      with q u have "0 < j \<and> unit_end (u ! (j - 1))"
        by (auto simp: consumed_def well_quantified_def nth_append)
      with True show ?thesis by (auto simp: nth_append)
    next
      case False
      then have jv: "j - length u < length v" "quantifier_char (v ! (j - length u))"
        using j q by (auto simp: nth_append)
      from v have "\<forall>k < length v. quantifier_char (v ! k) \<longrightarrow> 0 < k \<and> unit_end (v ! (k - 1))"
        by (simp add: consumed_def well_quantified_def)
      with jv have k: "0 < j - length u" "unit_end (v ! (j - length u - 1))"
        by blast+
      from k(1) have "\<not> j - 1 < length u" "j - 1 - length u = j - length u - 1" by auto
      with k show ?thesis by (auto simp: nth_append)
    qed
  qed
  with u v show ?thesis by (auto simp: consumed_def)
qed

lemma consumed_quantifier:
  "consumed u \<Longrightarrow> u \<noteq> [] \<Longrightarrow> unit_end (last u) \<Longrightarrow> quantifier_char c \<Longrightarrow> consumed (u @ [c])"
proof -
  assume u: "consumed u" "u \<noteq> []" "unit_end (last u)" and c: "quantifier_char c"
  have i: "inner_char c" using c by (auto simp: quantifier_char_def inner_char_def)
  have "well_quantified (u @ [c])"
    unfolding well_quantified_def
  proof (intro allI impI)
    fix j
    assume j: "j < length (u @ [c])" and q: "quantifier_char ((u @ [c]) ! j)"
    show "0 < j \<and> unit_end ((u @ [c]) ! (j - 1))"
    proof (cases "j < length u")
      case True
      with q u(1) have "0 < j \<and> unit_end (u ! (j - 1))"
        by (auto simp: consumed_def well_quantified_def nth_append)
      with True show ?thesis by (auto simp: nth_append)
    next
      case False
      with j have "j = length u" by simp
      with u(2,3) show ?thesis by (auto simp: nth_append last_conv_nth)
    qed
  qed
  with u(1) i show ?thesis by (auto simp: consumed_def)
qed

lemma advances_refl: "advances p (ok, p, ns)"
  by (simp add: advances_def consumed_Nil)

lemma advances_trans:
  "advances p (ok1, p1, ns1) \<Longrightarrow> advances p1 r \<Longrightarrow> advances p (ok, fst (snd r), ns)"
  unfolding advances_def
  by (metis append.assoc consumed_append fst_conv snd_conv)

lemma advances_tl:
  "peek p = c \<Longrightarrow> inner_char c \<Longrightarrow> \<not> quantifier_char c \<Longrightarrow> c \<noteq> CHR 0x00 \<Longrightarrow>
   advances p (ok, tl p, ns)"
  unfolding advances_def peek_def
  by (cases p) (auto intro: exI[of _ "[c]"] simp: consumed_single)

lemma advances_flag: "advances p (ok, q, ns) \<Longrightarrow> advances p (ok', q, ns')"
  by (simp add: advances_def)

lemma advances_unit_advances: "advances_unit p (ok, q, ns) \<Longrightarrow> advances p (ok', q, ns')"
  by (auto simp: advances_def advances_unit_def)

lemma advances_unit_fail: "advances p (ok, q, ns) \<Longrightarrow> advances_unit p (False, q, ns')"
  by (auto simp: advances_def advances_unit_def)

lemma advances_unit_quantified:
  assumes "advances_unit p (True, p1, ns1)" and "peek p1 = c" and "quantifier_char c"
  shows "advances p (ok, tl p1, ns)"
proof -
  from assms(1) obtain u where u: "p = u @ p1" "consumed u" "u \<noteq> []" "unit_end (last u)"
    by (auto simp: advances_unit_def)
  from assms(2,3) have "p1 = c # tl p1"
    by (cases p1) (auto simp: peek_def quantifier_char_def)
  with u(1) have "p = (u @ [c]) @ tl p1" by simp
  moreover have "consumed (u @ [c])" using u(2,3,4) assms(3) by (rule consumed_quantifier)
  ultimately show ?thesis unfolding advances_def by (metis fst_conv snd_conv)
qed

lemma advances_unit_closed:
  assumes "advances p (ok, p1, ns1)" and "peek p1 = c" and "unit_end c" and "c \<noteq> CHR 0x00"
  shows "advances_unit p (True, tl p1, ns)"
proof -
  from assms(1) obtain u where u: "p = u @ p1" "consumed u"
    by (auto simp: advances_def)
  from assms(2,4) have p1: "p1 = c # tl p1"
    by (cases p1) (auto simp: peek_def)
  have i: "inner_char c" "\<not> quantifier_char c"
    using assms(3) quantifier_not_unit_end[of c] by (auto simp: unit_end_def inner_char_def)
  have "consumed (u @ [c])" using u(2) consumed_single[OF i] by (rule consumed_append)
  moreover have "p = (u @ [c]) @ tl p1" using u(1) p1 by simp
  ultimately show ?thesis
    unfolding advances_unit_def using assms(3)
    by (intro exI[of _ "u @ [c]"]) simp
qed

lemma parse_advances:
  "advances p (parse p ns)"
  "advances p (parse_alternation p ns)"
  "advances p (alternation_loop first p ns)"
  "advances p (parse_concatenation p ns)"
  "advances p (concatenation_loop first p ns)"
  "advances p (parse_quantifier p ns)"
  "advances_unit p (parse_unit p ns)"
  "advances_unit p (parse_group p ns)"
proof (induct p ns and p ns and first p ns and p ns and first p ns and p ns and p ns and p ns
    rule: parse_parse_alternation_alternation_loop_parse_concatenation_concatenation_loop_parse_quantifier_parse_unit_parse_group.induct)
  case (1 p ns)
  then show ?case by (simp add: parse.simps)
next
  case (2 p ns)
  obtain ok p1 ns1 where r: "parse_concatenation p ns = (ok, p1, ns1)"
    by (cases "parse_concatenation p ns") auto
  show ?case
  proof (cases ok)
    case True
    have "advances p1 (alternation_loop (last_index ns1) p1 ns1)"
      using "2.hyps"(2)[of ok "(p1, ns1)" p1 ns1] r True by simp
    with "2.hyps"(1) r True show ?thesis
      using advances_trans[of p ok p1 ns1 "alternation_loop (last_index ns1) p1 ns1"]
      by (simp add: parse_alternation.simps advances_def)
  next
    case False
    with "2.hyps"(1) r show ?thesis
      by (simp add: parse_alternation.simps advances_def)
  qed
next
  case (3 first p ns)
  show ?case
  proof (cases "peek p = CHR ''|''")
    case bar: True
    have t: "advances p (True, tl p, ns)"
      using advances_tl[OF bar] by (simp add: inner_char_def quantifier_char_def)
    obtain ok p1 ns1 where r: "parse_concatenation (tl p) ns = (ok, p1, ns1)"
      by (cases "parse_concatenation (tl p) ns") auto
    have c: "advances (tl p) (ok, p1, ns1)" using "3.hyps"(1) bar r by simp
    have pc: "advances p (ok, p1, ns1)"
      using advances_trans[OF t c] by simp
    show ?thesis
    proof (cases ok)
      case True
      have "advances p1 (alternation_loop (last_index (ns1 @ [Alternation first (last_index ns1)])) p1
               (ns1 @ [Alternation first (last_index ns1)]))"
        using "3.hyps"(2)[OF bar, of ok "(p1, ns1)" p1 ns1] r True by simp
      from advances_trans[OF pc this] show ?thesis
        using r True bar
        by (simp add: alternation_loop.simps[of first p ns] Let_def advances_def)
    next
      case False
      then show ?thesis
        using r bar pc
        by (simp add: alternation_loop.simps[of first p ns] advances_def)
    qed
  next
    case False
    then show ?thesis
      by (simp add: alternation_loop.simps[of first p ns] advances_refl)
  qed
next
  case (4 p ns)
  obtain ok p1 ns1 where r: "parse_quantifier p ns = (ok, p1, ns1)"
    by (cases "parse_quantifier p ns") auto
  show ?case
  proof (cases ok)
    case True
    have "advances p1 (concatenation_loop (last_index ns1) p1 ns1)"
      using "4.hyps"(2)[of ok "(p1, ns1)" p1 ns1] r True by simp
    with "4.hyps"(1) r True show ?thesis
      using advances_trans[of p ok p1 ns1 "concatenation_loop (last_index ns1) p1 ns1"]
      by (simp add: parse_concatenation.simps advances_def)
  next
    case False
    with "4.hyps"(1) r show ?thesis
      by (simp add: parse_concatenation.simps advances_def)
  qed
next
  case (5 first p ns)
  obtain ok p1 ns1 where r: "parse_quantifier p ns = (ok, p1, ns1)"
    by (cases "parse_quantifier p ns") auto
  have pc: "advances p (ok, p1, ns1)" using "5.hyps"(1) r by simp
  show ?case
  proof (cases ok)
    case True
    have "advances p1 (concatenation_loop (last_index (ns1 @ [Concatenation first (last_index ns1)])) p1
             (ns1 @ [Concatenation first (last_index ns1)]))"
      using "5.hyps"(2)[of ok "(p1, ns1)" p1 ns1] r True by simp
    from advances_trans[OF pc this] show ?thesis
      using r True
      by (simp add: concatenation_loop.simps[of first p ns] Let_def advances_def)
  next
    case False
    then show ?thesis
      using r pc
      by (simp add: concatenation_loop.simps[of first p ns] advances_def)
  qed
next
  case (6 p ns)
  obtain ok p1 ns1 where r: "parse_unit p ns = (ok, p1, ns1)"
    by (cases "parse_unit p ns") auto
  have pc: "advances_unit p (ok, p1, ns1)" using "6.hyps" r by simp
  show ?case
  proof (cases ok)
    case True
    with pc have pu: "advances_unit p (True, p1, ns1)" by simp
    have q: "peek p1 \<in> set ''?*+'' \<Longrightarrow> advances p (True, tl p1, ms)" for ms
      using advances_unit_quantified[OF pu refl] by (simp add: quantifier_char_def)
    show ?thesis
      using r True q advances_unit_advances[OF pu]
      by (auto simp: parse_quantifier.simps[of p ns] Let_def)
  next
    case False
    then show ?thesis
      using r advances_unit_advances[OF pc]
      by (simp add: parse_quantifier.simps[of p ns])
  qed
next
  case (7 p ns)
  show ?case
  proof (cases "isalpha (tolower (peek p)) \<or> isdigit (peek p) \<or> peek p = CHR ''_''")
    case True
    then have "unit_end (peek p)" "peek p \<noteq> CHR 0x00"
      using atom_char_not_nul[of "peek p"] by (auto simp: unit_end_def)
    then have "advances_unit p (True, tl p, ns @ [Atom (peek p)])"
      by (rule advances_unit_closed[OF advances_refl[of p True ns] refl])
    with True show ?thesis by (simp add: parse_unit.simps[of p ns])
  next
    case na: False
    show ?thesis
    proof (cases "peek p = CHR ''(''")
      case True
      obtain ok p1 ns1 where r: "parse_group p ns = (ok, p1, ns1)"
        by (cases "parse_group p ns") auto
      have "advances_unit p (ok, p1, ns1)" using "7.hyps"[OF na True] r by simp
      then show ?thesis
        using na True r
        by (cases ok) (auto simp: parse_unit.simps[of p ns] advances_unit_def)
    next
      case False
      then show ?thesis
        using na advances_unit_fail[OF advances_refl[of p False ns]]
        by (simp add: parse_unit.simps[of p ns])
    qed
  qed
next
  case (8 p ns)
  show ?case
  proof (cases "peek p = CHR ''(''")
    case True
    have t: "advances p (True, tl p, ns)"
      using advances_tl[OF True] by (simp add: inner_char_def quantifier_char_def)
    obtain ok p1 ns1 where r: "parse (tl p) ns = (ok, p1, ns1)"
      by (cases "parse (tl p) ns") auto
    have "advances (tl p) (ok, p1, ns1)" using "8.hyps" True r by simp
    from advances_trans[OF t this] have pc: "advances p (ok, p1, ns1)" by simp
    have "peek p1 = CHR '')'' \<Longrightarrow> advances_unit p (True, tl p1, ns1)"
      using advances_unit_closed[OF pc] by (simp add: unit_end_def)
    then show ?thesis
      using True r advances_unit_fail[OF pc]
      by (auto simp: parse_group.simps[of p ns])
  next
    case False
    then show ?thesis
      using advances_unit_fail[OF advances_refl[of p False ns]]
      by (simp add: parse_group.simps[of p ns])
  qed
qed

lemma build_loop_success:
  "build_loop p t = (True, p', t') \<Longrightarrow>
     (\<exists>u. p = u @ p' \<and> consumed u \<and> peek p' = CHR 0x00) \<or>
     (\<exists>u. p = u @ CHR ''$'' # p' \<and> consumed u)"
proof (induct p t rule: build_loop.induct)
  case (1 p t)
  show ?case
  proof (cases "peek p = CHR 0x00")
    case True
    with "1.prems" show ?thesis by (simp add: build_loop.simps[of p t] consumed_Nil)
  next
    case nz: False
    show ?thesis
    proof (cases "peek p = CHR ''$''")
      case True
      then have "p = CHR ''$'' # tl p" by (cases p) (auto simp: peek_def)
      moreover have "p' = tl p" using "1.prems" True by (simp add: build_loop.simps[of p t])
      ultimately have "p = [] @ CHR ''$'' # p' \<and> consumed []" by (simp add: consumed_Nil)
      then show ?thesis by blast
    next
      case False
      obtain ok p1 ns1 where r: "parse p (nodes t) = (ok, p1, ns1)"
        by (cases "parse p (nodes t)") auto
      from "1.prems" nz False r have ok: ok and
        rest: "build_loop p1 (t\<lparr>nodes := ns1\<rparr>) = (True, p', t')"
        by (auto simp: build_loop.simps[of p t] split: if_splits)
      from parse_advances(1)[of p "nodes t"] r obtain u where
        u: "p = u @ p1" "consumed u"
        by (auto simp: advances_def)
      from "1.hyps"[OF nz False r[symmetric] refl _ rest] ok
      have "(\<exists>v. p1 = v @ p' \<and> consumed v \<and> peek p' = CHR 0x00) \<or>
            (\<exists>v. p1 = v @ CHR ''$'' # p' \<and> consumed v)"
        by simp
      then show ?thesis
      proof
        assume "\<exists>v. p1 = v @ p' \<and> consumed v \<and> peek p' = CHR 0x00"
        then obtain v where "p1 = v @ p'" "consumed v" "peek p' = CHR 0x00"
          by blast
        with u have "p = (u @ v) @ p' \<and> consumed (u @ v) \<and> peek p' = CHR 0x00"
          by (simp add: consumed_append)
        then show ?thesis by blast
      next
        assume "\<exists>v. p1 = v @ CHR ''$'' # p' \<and> consumed v"
        then obtain v where "p1 = v @ CHR ''$'' # p'" "consumed v"
          by blast
        with u have "p = (u @ v) @ CHR ''$'' # p' \<and> consumed (u @ v)"
          by (simp add: consumed_append)
        then show ?thesis by blast
      qed
    qed
  qed
qed

definition in_grammar :: "char \<Rightarrow> bool" where
  "in_grammar c = (isalpha (tolower c) \<or> isdigit c \<or> c = CHR ''_'' \<or> c \<in> set ''()|?*+^$'')"

lemma inner_char_in_grammar: "inner_char c \<Longrightarrow> in_grammar c"
  by (auto simp: inner_char_def in_grammar_def)

lemma build_loop_rejects:
  assumes c: "\<not> in_grammar c" "c \<noteq> CHR 0x00"
    and pre: "CHR ''$'' \<notin> set pre" "CHR 0x00 \<notin> set pre"
  shows "fst (build_loop (pre @ c # post) t) = False"
proof (rule ccontr)
  assume "fst (build_loop (pre @ c # post) t) \<noteq> False"
  then obtain p' t' where b: "build_loop (pre @ c # post) t = (True, p', t')"
    by (cases "build_loop (pre @ c # post) t") auto
  have nd: "c \<noteq> CHR ''$''" using c(1) by (auto simp: in_grammar_def)
  from build_loop_success[OF b] show False
  proof
    assume "\<exists>u. pre @ c # post = u @ p' \<and> consumed u \<and> peek p' = CHR 0x00"
    then obtain u where u: "pre @ c # post = u @ p'" "\<forall>c \<in> set u. inner_char c"
      "peek p' = CHR 0x00" by (auto simp: consumed_def)
    from u(1) show False
      using u(2,3) c pre inner_char_in_grammar[of c]
      by (auto simp: append_eq_append_conv2 Cons_eq_append_conv append_eq_Cons_conv peek_def
          split: list.splits)
  next
    assume "\<exists>u. pre @ c # post = u @ CHR ''$'' # p' \<and> consumed u"
    then obtain u where u: "pre @ c # post = u @ CHR ''$'' # p'" "\<forall>c \<in> set u. inner_char c"
      by (auto simp: consumed_def)
    from u(1) show False
      using u(2) c pre nd inner_char_in_grammar[of c]
      by (auto simp: append_eq_append_conv2 Cons_eq_append_conv append_eq_Cons_conv)
  qed
qed

lemma build_parse_tree_rejects:
  assumes c: "\<not> in_grammar c" "c \<noteq> CHR 0x00"
    and pre: "CHR ''$'' \<notin> set pre" "CHR 0x00 \<notin> set pre"
  shows "fst (build_parse_tree (pre @ c # post) t) = False"
proof (cases pre)
  case Nil
  have "c \<noteq> CHR ''^''" using c(1) by (auto simp: in_grammar_def)
  then show ?thesis
    using build_loop_rejects[OF c, of "[]" post t] Nil
    by (simp add: build_parse_tree_def peek_def)
next
  case (Cons a as)
  then show ?thesis
    using build_loop_rejects[OF c pre, of post t]
      build_loop_rejects[OF c, of as post "t\<lparr>flags := flags t OR BEGIN_ANCHORED\<rparr>"] pre
    by (simp add: build_parse_tree_def peek_def)
qed

text \<open>Two quantifiers in a row: the second is never consumed.\<close>

lemma build_loop_rejects_chained:
  assumes q: "quantifier_char q1" "quantifier_char q2"
    and pre: "CHR ''$'' \<notin> set pre" "CHR 0x00 \<notin> set pre"
  shows "fst (build_loop (pre @ q1 # q2 # post) t) = False"
proof (rule ccontr)
  let ?p = "pre @ q1 # q2 # post"
  assume "fst (build_loop ?p t) \<noteq> False"
  then obtain p' t' where b: "build_loop ?p t = (True, p', t')"
    by (cases "build_loop ?p t") auto
  have qn: "q1 \<noteq> CHR 0x00" "q2 \<noteq> CHR 0x00" "q1 \<noteq> CHR ''$''" "q2 \<noteq> CHR ''$''"
    using q by (auto simp: quantifier_char_def)
  have head: "k \<le> length pre + 1 \<Longrightarrow> ?p ! k \<noteq> CHR 0x00 \<and> ?p ! k \<noteq> CHR ''$''" for k
    using pre qn by (auto simp: nth_append nth_Cons' in_set_conv_nth)
  have short: "length u \<le> length pre + 1" if u: "?p = u @ w" "consumed u" for u w
  proof (rule ccontr)
    assume "\<not> length u \<le> length pre + 1"
    then have l: "length pre + 1 < length u" by simp
    have "u ! (length pre + 1) = ?p ! (length pre + 1)" "u ! length pre = ?p ! length pre"
      using u(1) l by (simp_all add: nth_append)
    then have "u ! (length pre + 1) = q2" "u ! length pre = q1"
      by (simp_all add: nth_append)
    with u(2) l q(2) have "unit_end q1"
      by (auto simp: consumed_def well_quantified_def)
    with q(1) quantifier_not_unit_end show False by blast
  qed
  from build_loop_success[OF b] show False
  proof
    assume "\<exists>u. ?p = u @ p' \<and> consumed u \<and> peek p' = CHR 0x00"
    then obtain u where u: "?p = u @ p'" "consumed u" "peek p' = CHR 0x00" by blast
    from short[OF u(1,2)] have l: "length u \<le> length pre + 1" .
    then have "p' \<noteq> []" using u(1) by (auto dest: arg_cong[where f = length])
    then have "peek p' = ?p ! length u"
      using u(1) by (cases p') (auto simp: peek_def nth_append)
    with head[OF l] u(3) show False by simp
  next
    assume "\<exists>u. ?p = u @ CHR ''$'' # p' \<and> consumed u"
    then obtain u where u: "?p = u @ CHR ''$'' # p'" "consumed u" by blast
    from short[OF u(1,2)] have l: "length u \<le> length pre + 1" .
    have "?p ! length u = CHR ''$''" using u(1) by (simp add: nth_append)
    with head[OF l] show False by simp
  qed
qed

lemma build_parse_tree_rejects_chained:
  assumes q: "quantifier_char q1" "quantifier_char q2"
    and pre: "CHR ''$'' \<notin> set pre" "CHR 0x00 \<notin> set pre"
  shows "fst (build_parse_tree (pre @ q1 # q2 # post) t) = False"
proof (cases pre)
  case Nil
  have "q1 \<noteq> CHR ''^''" using q(1) by (auto simp: quantifier_char_def)
  then show ?thesis
    using build_loop_rejects_chained[OF q, of "[]" post t] Nil
    by (simp add: build_parse_tree_def peek_def)
next
  case (Cons a as)
  then show ?thesis
    using build_loop_rejects_chained[OF q pre, of post t]
      build_loop_rejects_chained[OF q, of as post "t\<lparr>flags := flags t OR BEGIN_ANCHORED\<rparr>"] pre
    by (simp add: build_parse_tree_def peek_def)
qed

section \<open>The end anchor\<close>

text \<open>
  The parsing functions look at the character under the pointer only. As long as a call
  leaves part of the pattern unread, it returns the same on the pattern with more text
  appended, which it leaves unread as well.
\<close>

definition followed_by :: "string \<Rightarrow> presult \<Rightarrow> presult" where
  "followed_by v r = (fst r, fst (snd r) @ v, snd (snd r))"

lemma peek_append: "p \<noteq> [] \<Longrightarrow> peek (p @ v) = peek p"
  by (cases p) (auto simp: peek_def)

lemma tl_append_nonempty: "p \<noteq> [] \<Longrightarrow> tl (p @ v) = tl p @ v"
  by (cases p) auto

lemma shrinks_nonempty: "length q \<le> length p \<Longrightarrow> q \<noteq> [] \<Longrightarrow> p \<noteq> []"
  by auto

lemma parse_local:
  "fst (snd (parse p ns)) \<noteq> [] \<Longrightarrow> parse (p @ v) ns = followed_by v (parse p ns)"
  "fst (snd (parse_alternation p ns)) \<noteq> [] \<Longrightarrow>
     parse_alternation (p @ v) ns = followed_by v (parse_alternation p ns)"
  "fst (snd (alternation_loop first p ns)) \<noteq> [] \<Longrightarrow>
     alternation_loop first (p @ v) ns = followed_by v (alternation_loop first p ns)"
  "fst (snd (parse_concatenation p ns)) \<noteq> [] \<Longrightarrow>
     parse_concatenation (p @ v) ns = followed_by v (parse_concatenation p ns)"
  "fst (snd (concatenation_loop first p ns)) \<noteq> [] \<Longrightarrow>
     concatenation_loop first (p @ v) ns = followed_by v (concatenation_loop first p ns)"
  "fst (snd (parse_quantifier p ns)) \<noteq> [] \<Longrightarrow>
     parse_quantifier (p @ v) ns = followed_by v (parse_quantifier p ns)"
  "fst (snd (parse_unit p ns)) \<noteq> [] \<Longrightarrow>
     parse_unit (p @ v) ns = followed_by v (parse_unit p ns)"
  "fst (snd (parse_group p ns)) \<noteq> [] \<Longrightarrow>
     parse_group (p @ v) ns = followed_by v (parse_group p ns)"
proof (induct p ns and p ns and first p ns and p ns and first p ns and p ns and p ns and p ns
    rule: parse_parse_alternation_alternation_loop_parse_concatenation_concatenation_loop_parse_quantifier_parse_unit_parse_group.induct)
  case (1 p ns)
  then show ?case by (simp add: parse.simps)
next
  case (2 p ns)
  obtain ok p1 ns1 where r: "parse_concatenation p ns = (ok, p1, ns1)"
    by (cases "parse_concatenation p ns") auto
  show ?case
  proof (cases ok)
    case True
    let ?r2 = "alternation_loop (last_index ns1) p1 ns1"
    have ne2: "fst (snd ?r2) \<noteq> []"
      using "2.prems" r True by (simp add: parse_alternation.simps[of p ns])
    have "p1 \<noteq> []"
      using parse_consumes(3)[where first = "last_index ns1" and p = p1 and ns = ns1] ne2 by (auto simp: shrinks_def)
    then have 1: "parse_concatenation (p @ v) ns = (True, p1 @ v, ns1)"
      using "2.hyps"(1) r True by (simp add: followed_by_def)
    have 2: "alternation_loop (last_index ns1) (p1 @ v) ns1 = followed_by v ?r2"
      using "2.hyps"(2)[of ok "(p1, ns1)" p1 ns1] r True ne2 by simp
    show ?thesis
      using 1 2 r True
      by (simp add: parse_alternation.simps[of p ns] parse_alternation.simps[of "p @ v" ns])
  next
    case False
    then have "p1 \<noteq> []"
      using "2.prems" r by (simp add: parse_alternation.simps[of p ns])
    then have "parse_concatenation (p @ v) ns = (False, p1 @ v, ns1)"
      using "2.hyps"(1) r False by (simp add: followed_by_def)
    then show ?thesis
      using r False
      by (simp add: parse_alternation.simps[of p ns] parse_alternation.simps[of "p @ v" ns]
          followed_by_def)
  qed
next
  case (3 first p ns)
  have pne: "p \<noteq> []"
    using parse_consumes(3)[where first = first and p = p and ns = ns] "3.prems" by (auto simp: shrinks_def)
  note pk = peek_append[OF pne, of v] and tla = tl_append_nonempty[OF pne, of v]
  show ?case
  proof (cases "peek p = CHR ''|''")
    case bar: True
    obtain ok p1 ns1 where r: "parse_concatenation (tl p) ns = (ok, p1, ns1)"
      by (cases "parse_concatenation (tl p) ns") auto
    show ?thesis
    proof (cases ok)
      case True
      let ?n = "ns1 @ [Alternation first (last_index ns1)]"
      let ?r2 = "alternation_loop (last_index ?n) p1 ?n"
      have ne2: "fst (snd ?r2) \<noteq> []"
        using "3.prems" r True bar by (simp add: alternation_loop.simps[of first p ns] Let_def)
      have "p1 \<noteq> []"
        using parse_consumes(3)[where first = "last_index ?n" and p = p1 and ns = "?n"] ne2 by (auto simp: shrinks_def)
      then have 1: "parse_concatenation (tl p @ v) ns = (True, p1 @ v, ns1)"
        using "3.hyps"(1)[OF bar] r True by (simp add: followed_by_def)
      have 2: "alternation_loop (last_index ?n) (p1 @ v) ?n = followed_by v ?r2"
        using "3.hyps"(2)[OF bar, of ok "(p1, ns1)" p1 ns1] r True ne2 by simp
      show ?thesis
        using 1 2 r True bar pk tla
        by (simp add: alternation_loop.simps[of first p ns]
            alternation_loop.simps[of first "p @ v" ns] Let_def)
    next
      case False
      then have "p1 \<noteq> []"
        using "3.prems" r bar by (simp add: alternation_loop.simps[of first p ns])
      then have "parse_concatenation (tl p @ v) ns = (False, p1 @ v, ns1)"
        using "3.hyps"(1)[OF bar] r False by (simp add: followed_by_def)
      then show ?thesis
        using r False bar pk tla
        by (simp add: alternation_loop.simps[of first p ns]
            alternation_loop.simps[of first "p @ v" ns] followed_by_def)
    qed
  next
    case False
    then show ?thesis
      using pk
      by (simp add: alternation_loop.simps[of first p ns]
          alternation_loop.simps[of first "p @ v" ns] followed_by_def)
  qed
next
  case (4 p ns)
  obtain ok p1 ns1 where r: "parse_quantifier p ns = (ok, p1, ns1)"
    by (cases "parse_quantifier p ns") auto
  show ?case
  proof (cases ok)
    case True
    let ?r2 = "concatenation_loop (last_index ns1) p1 ns1"
    have ne2: "fst (snd ?r2) \<noteq> []"
      using "4.prems" r True by (simp add: parse_concatenation.simps[of p ns])
    have "p1 \<noteq> []"
      using parse_consumes(5)[where first = "last_index ns1" and p = p1 and ns = ns1] ne2 by (auto simp: shrinks_def)
    then have 1: "parse_quantifier (p @ v) ns = (True, p1 @ v, ns1)"
      using "4.hyps"(1) r True by (simp add: followed_by_def)
    have 2: "concatenation_loop (last_index ns1) (p1 @ v) ns1 = followed_by v ?r2"
      using "4.hyps"(2)[of ok "(p1, ns1)" p1 ns1] r True ne2 by simp
    show ?thesis
      using 1 2 r True
      by (simp add: parse_concatenation.simps[of p ns] parse_concatenation.simps[of "p @ v" ns])
  next
    case False
    then have "p1 \<noteq> []"
      using "4.prems" r by (simp add: parse_concatenation.simps[of p ns])
    then have "parse_quantifier (p @ v) ns = (False, p1 @ v, ns1)"
      using "4.hyps"(1) r False by (simp add: followed_by_def)
    then show ?thesis
      using r False
      by (simp add: parse_concatenation.simps[of p ns] parse_concatenation.simps[of "p @ v" ns]
          followed_by_def)
  qed
next
  case (5 first p ns)
  obtain ok p1 ns1 where r: "parse_quantifier p ns = (ok, p1, ns1)"
    by (cases "parse_quantifier p ns") auto
  show ?case
  proof (cases ok)
    case True
    let ?n = "ns1 @ [Concatenation first (last_index ns1)]"
    let ?r2 = "concatenation_loop (last_index ?n) p1 ?n"
    have ne2: "fst (snd ?r2) \<noteq> []"
      using "5.prems" r True by (simp add: concatenation_loop.simps[of first p ns] Let_def)
    have "p1 \<noteq> []"
      using parse_consumes(5)[where first = "last_index ?n" and p = p1 and ns = "?n"] ne2 by (auto simp: shrinks_def)
    then have 1: "parse_quantifier (p @ v) ns = (True, p1 @ v, ns1)"
      using "5.hyps"(1) r True by (simp add: followed_by_def)
    have 2: "concatenation_loop (last_index ?n) (p1 @ v) ?n = followed_by v ?r2"
      using "5.hyps"(2)[of ok "(p1, ns1)" p1 ns1] r True ne2 by simp
    show ?thesis
      using 1 2 r True
      by (simp add: concatenation_loop.simps[of first p ns]
          concatenation_loop.simps[of first "p @ v" ns] Let_def)
  next
    case False
    then have "p1 \<noteq> []"
      using "5.prems" r by (simp add: concatenation_loop.simps[of first p ns])
    then have "parse_quantifier (p @ v) ns = (False, p1 @ v, ns1)"
      using "5.hyps"(1) r False by (simp add: followed_by_def)
    then show ?thesis
      using r False
      by (simp add: concatenation_loop.simps[of first p ns]
          concatenation_loop.simps[of first "p @ v" ns] followed_by_def)
  qed
next
  case (6 p ns)
  obtain ok p1 ns1 where r: "parse_unit p ns = (ok, p1, ns1)"
    by (cases "parse_unit p ns") auto
  have "length (fst (snd (parse_quantifier p ns))) \<le> length p1"
    using r by (simp add: parse_quantifier.simps[of p ns] Let_def)
  then have p1: "p1 \<noteq> []" using "6.prems" by auto
  then have 1: "parse_unit (p @ v) ns = (ok, p1 @ v, ns1)"
    using "6.hyps" r by (simp add: followed_by_def)
  show ?case
    using 1 r peek_append[OF p1, of v] tl_append_nonempty[OF p1, of v]
    by (simp add: parse_quantifier.simps[of p ns] parse_quantifier.simps[of "p @ v" ns]
        followed_by_def Let_def)
next
  case (7 p ns)
  have pne: "p \<noteq> []"
    using parse_consumes(7)[of p ns] "7.prems" by (auto simp: consumes_def)
  note pk = peek_append[OF pne, of v] and tla = tl_append_nonempty[OF pne, of v]
  show ?case
  proof (cases "isalpha (tolower (peek p)) \<or> isdigit (peek p) \<or> peek p = CHR ''_''")
    case True
    then show ?thesis
      using pk tla
      by (simp add: parse_unit.simps[of p ns] parse_unit.simps[of "p @ v" ns] followed_by_def)
  next
    case na: False
    show ?thesis
    proof (cases "peek p = CHR ''(''")
      case True
      obtain ok p1 ns1 where r: "parse_group p ns = (ok, p1, ns1)"
        by (cases "parse_group p ns") auto
      have "p1 \<noteq> []"
        using "7.prems" na True r by (auto simp: parse_unit.simps[of p ns] split: if_splits)
      then have "parse_group (p @ v) ns = (ok, p1 @ v, ns1)"
        using "7.hyps"[OF na True] r by (simp add: followed_by_def)
      then show ?thesis
        using na True r pk
        by (auto simp: parse_unit.simps[of p ns] parse_unit.simps[of "p @ v" ns] followed_by_def)
    next
      case False
      then show ?thesis
        using na pk
        by (simp add: parse_unit.simps[of p ns] parse_unit.simps[of "p @ v" ns] followed_by_def)
    qed
  qed
next
  case (8 p ns)
  have pne: "p \<noteq> []"
    using parse_consumes(8)[of p ns] "8.prems" by (auto simp: consumes_def)
  note pk = peek_append[OF pne, of v] and tla = tl_append_nonempty[OF pne, of v]
  show ?case
  proof (cases "peek p = CHR ''(''")
    case True
    obtain ok p1 ns1 where r: "parse (tl p) ns = (ok, p1, ns1)"
      by (cases "parse (tl p) ns") auto
    have "length (fst (snd (parse_group p ns))) \<le> length p1"
      using True r by (simp add: parse_group.simps[of p ns])
    then have p1: "p1 \<noteq> []" using "8.prems" by auto
    then have "parse (tl p @ v) ns = (ok, p1 @ v, ns1)"
      using "8.hyps" True r by (simp add: followed_by_def)
    then show ?thesis
      using True r pk tla peek_append[OF p1, of v] tl_append_nonempty[OF p1, of v]
      by (simp add: parse_group.simps[of p ns] parse_group.simps[of "p @ v" ns] followed_by_def)
  next
    case False
    then show ?thesis
      using pk
      by (simp add: parse_group.simps[of p ns] parse_group.simps[of "p @ v" ns] followed_by_def)
  qed
qed


lemma dollar_not_inner: "\<not> inner_char CHR ''$''"
  by (simp add: inner_char_def isalpha_def isdigit_def tolower_def)

lemma end_anchored_set: "(x OR END_ANCHORED) AND END_ANCHORED = END_ANCHORED"
  by (rule bit_eqI) (auto simp: bit_simps)

lemma build_loop_dollar:
  "build_loop p t = (True, [], t') \<Longrightarrow> p = u @ ''$'' \<Longrightarrow>
   build_loop (p @ rest) t = (True, rest, t') \<and> flags t' AND END_ANCHORED = END_ANCHORED"
proof (induct p t arbitrary: u rule: build_loop.induct)
  case (1 p t)
  from "1.prems"(2) have pne: "p \<noteq> []" by simp
  note pk = peek_append[OF pne, of rest] and tla = tl_append_nonempty[OF pne, of rest]
  have nz: "peek p \<noteq> CHR 0x00"
    using "1.prems"(1) pne by (auto simp: build_loop.simps[of p t])
  show ?case
  proof (cases "peek p = CHR ''$''")
    case True
    then show ?thesis
      using "1.prems"(1) nz pk tla
      by (auto simp: build_loop.simps[of p t] build_loop.simps[of "p @ rest" t] end_anchored_set)
  next
    case False
    obtain ok p1 ns1 where r: "parse p (nodes t) = (ok, p1, ns1)"
      by (cases "parse p (nodes t)") auto
    from "1.prems"(1) nz False r have ok: ok and
      b: "build_loop p1 (t\<lparr>nodes := ns1\<rparr>) = (True, [], t')"
      by (auto simp: build_loop.simps[of p t] split: if_splits)
    from parse_advances(1)[of p "nodes t"] r obtain c where
      c: "p = c @ p1" "\<forall>x \<in> set c. inner_char x"
      by (auto simp: advances_def consumed_def)
    have p1: "p1 \<noteq> []"
    proof
      assume "p1 = []"
      with c "1.prems"(2) have "CHR ''$'' \<in> set c" by auto
      with c(2) dollar_not_inner show False by blast
    qed
    with c(1) "1.prems"(2) have "last p1 = CHR ''$''"
      by (metis last_appendR last_snoc)
    with p1 have u1: "p1 = butlast p1 @ ''$''"
      by (metis append_butlast_last_id)
    have "parse (p @ rest) (nodes t) = (ok, p1 @ rest, ns1)"
      using parse_local(1)[of p "nodes t" rest] r p1 by (simp add: followed_by_def)
    moreover have "build_loop (p1 @ rest) (t\<lparr>nodes := ns1\<rparr>) = (True, rest, t') \<and>
        flags t' AND END_ANCHORED = END_ANCHORED"
      using "1.hyps"[OF nz False r[symmetric] refl _ b u1] ok by simp
    ultimately show ?thesis
      using nz False ok pk
      by (simp add: build_loop.simps[of "p @ rest" t])
  qed
qed

lemma build_parse_tree_dollar:
  assumes "build_parse_tree (u @ ''$'') t = (True, [], t')"
  shows "build_parse_tree (u @ ''$'' @ rest) t = (True, rest, t') \<and>
    flags t' AND END_ANCHORED = END_ANCHORED"
proof (cases "peek (u @ ''$'') = CHR ''^''")
  case True
  then obtain u' where u: "u = CHR ''^'' # u'"
    by (cases u) (auto simp: peek_def)
  with assms have "build_loop (u' @ ''$'') (t\<lparr>flags := flags t OR BEGIN_ANCHORED\<rparr>) = (True, [], t')"
    by (simp add: build_parse_tree_def peek_def)
  from build_loop_dollar[OF this refl, of rest] u show ?thesis
    by (simp add: build_parse_tree_def peek_def)
next
  case False
  with assms have "build_loop (u @ ''$'') t = (True, [], t')"
    by (simp add: build_parse_tree_def)
  from build_loop_dollar[OF this refl, of rest] False show ?thesis
    using peek_append[of "u @ ''$''" rest]
    by (simp add: build_parse_tree_def)
qed

section \<open>Automaton (\<open>struct NFA\<close>)\<close>

text \<open>
  A transition maps a symbol to the list of its destinations. The symbol is an \<open>int\<close>:
  a character value, or \<open>-1\<close> for the empty transition. A state carries its id, taken
  from the static counter \<open>g_id\<close>, the stamp \<open>last_exec\<close> of the engine, its flags and its
  transitions.
\<close>

record transition =
  symbol :: int
  futures :: "nat list"

record state =
  state_id :: nat
  last_exec :: "32 word"
  state_flags :: int
  transitions :: "transition list"

definition ACCEPTING :: int where
  "ACCEPTING = 1"

record nfa =
  states :: "state list"
  start_state :: nat

text \<open>
  Indexing a vector out of range and \<open>back()\<close> on an empty vector are undefined in the
  source; the model stops with a fault there.
\<close>

datatype fault = OutOfBounds | EmptyStack

text \<open>\<open>State::find\<close>: the first transition with the symbol, here by its position.\<close>

fun find_position :: "transition list \<Rightarrow> int \<Rightarrow> nat option" where
  "find_position [] sy = None"
| "find_position (t # ts) sy =
     (if symbol t = sy then Some 0 else map_option Suc (find_position ts sy))"

definition state_find :: "state \<Rightarrow> int \<Rightarrow> transition option" where
  "state_find s sy = map_option (\<lambda>i. transitions s ! i) (find_position (transitions s) sy)"

text \<open>
  \<open>State::get\<close>: the transition \<open>find\<close> returns, or a new one appended for the symbol.
  The result is the position of the transition and the state that holds it.
\<close>

definition state_get :: "state \<Rightarrow> int \<Rightarrow> nat \<times> state" where
  "state_get s sy =
     (case find_position (transitions s) sy of
        Some i \<Rightarrow> (i, s)
      | None \<Rightarrow> (length (transitions s),
                 s\<lparr>transitions := transitions s @ [\<lparr>symbol = sy, futures = []\<rparr>]\<rparr>))"

definition push_futures :: "nat \<Rightarrow> nat list \<Rightarrow> state \<Rightarrow> state" where
  "push_futures i fs s =
     s\<lparr>transitions := (transitions s)
          [i := (transitions s ! i)\<lparr>futures := futures (transitions s ! i) @ fs\<rparr>]\<rparr>"

text \<open>
  \<open>auto &t = machine->states[idx].get(sy); t.futures.push_back(f); ...\<close> for the
  destinations \<open>fs\<close> in order.
\<close>

definition connect :: "nat \<Rightarrow> int \<Rightarrow> nat list \<Rightarrow> nfa \<Rightarrow> fault + nfa" where
  "connect idx sy fs m =
     (if idx < length (states m) then
        (case state_get (states m ! idx) sy of
           (i, s) \<Rightarrow> Inr (m\<lparr>states := (states m)[idx := push_futures i fs s]\<rparr>))
      else Inl OutOfBounds)"

text \<open>
  \<open>char\<close> converted to \<open>int\<close>. \<open>char\<close> is taken as signed (as on x86-64): bytes from 128
  up are negative, and the byte 255 is \<open>-1\<close>.
\<close>

definition char_to_int :: "char \<Rightarrow> int" where
  "char_to_int c = (if (of_char c :: nat) < 128 then int (of_char c) else int (of_char c) - 256)"

section \<open>Compiler (\<open>struct NFACompiler\<close>)\<close>

record node_data =
  nd_start_state :: nat
  nd_accept_state :: nat

text \<open>
  The compiler holds the machine it builds and its stack of fragments; \<open>g_id\<close> is the
  static counter of \<open>NFA::State\<close>, which every new state reads and increments.
\<close>

record compiler =
  machine :: nfa
  node_stack :: "node_data list"
  g_id :: nat

text \<open>\<open>machine->states.emplace_back()\<close>, with the flags the caller sets right after.\<close>

definition emplace_state :: "int \<Rightarrow> compiler \<Rightarrow> compiler" where
  "emplace_state fl c =
     c\<lparr>machine := (machine c)\<lparr>states := states (machine c) @
            [\<lparr>state_id = g_id c, last_exec = 0, state_flags = fl, transitions = []\<rparr>]\<rparr>,
       g_id := (g_id c + 1) mod 4294967296\<rparr>"

definition connect_c :: "nat \<Rightarrow> int \<Rightarrow> nat list \<Rightarrow> compiler \<Rightarrow> fault + compiler" where
  "connect_c idx sy fs c =
     (case connect idx sy fs (machine c) of
        Inl e \<Rightarrow> Inl e
      | Inr m \<Rightarrow> Inr (c\<lparr>machine := m\<rparr>))"

text \<open>\<open>node_stack.back()\<close> followed by \<open>node_stack.pop_back()\<close>.\<close>

definition pop :: "compiler \<Rightarrow> fault + node_data \<times> compiler" where
  "pop c =
     (if node_stack c = [] then Inl EmptyStack
      else Inr (last (node_stack c), c\<lparr>node_stack := butlast (node_stack c)\<rparr>))"

definition push :: "node_data \<Rightarrow> compiler \<Rightarrow> compiler" where
  "push d c = c\<lparr>node_stack := node_stack c @ [d]\<rparr>"

definition and_then :: "fault + 'a \<Rightarrow> ('a \<Rightarrow> fault + 'b) \<Rightarrow> fault + 'b" where
  "and_then r f = (case r of Inl e \<Rightarrow> Inl e | Inr x \<Rightarrow> f x)"

text \<open>
  The cases of \<open>emit_node\<close> after the operands have been emitted: pop their fragments,
  push the node's own, create its two states and wire them, in the order of the source.
\<close>

definition emit_alternation :: "compiler \<Rightarrow> fault + compiler" where
  "emit_alternation c =
     and_then (pop c) (\<lambda>(right_data, c).
     and_then (pop c) (\<lambda>(left_data, c).
       let start = length (states (machine c));
           c = emplace_state 0 c
       in and_then (connect_c start (- 1) [nd_start_state left_data, nd_start_state right_data] c) (\<lambda>c.
       let accept = length (states (machine c));
           c = emplace_state 0 c
       in and_then (connect_c (nd_accept_state left_data) (- 1) [accept] c) (\<lambda>c.
          and_then (connect_c (nd_accept_state right_data) (- 1) [accept] c) (\<lambda>c.
          Inr (push \<lparr>nd_start_state = start, nd_accept_state = accept\<rparr> c))))))"

definition emit_concatenation :: "compiler \<Rightarrow> fault + compiler" where
  "emit_concatenation c =
     and_then (pop c) (\<lambda>(right_data, c).
     and_then (pop c) (\<lambda>(left_data, c).
       let start = length (states (machine c));
           c = emplace_state 0 c
       in and_then (connect_c start (- 1) [nd_start_state left_data] c) (\<lambda>c.
       let accept = length (states (machine c));
           c = emplace_state 0 c
       in and_then (connect_c (nd_accept_state left_data) (- 1) [nd_start_state right_data] c) (\<lambda>c.
          and_then (connect_c (nd_accept_state right_data) (- 1) [accept] c) (\<lambda>c.
          Inr (push \<lparr>nd_start_state = start, nd_accept_state = accept\<rparr> c))))))"

definition emit_repetition :: "compiler \<Rightarrow> fault + compiler" where
  "emit_repetition c =
     and_then (pop c) (\<lambda>(data, c).
       let start = length (states (machine c));
           c = emplace_state 0 c;
           accept = length (states (machine c));
           c = emplace_state 0 c
       in and_then (connect_c start (- 1) [nd_start_state data] c) (\<lambda>c.
          and_then (connect_c (nd_accept_state data) (- 1) [nd_start_state data, accept] c) (\<lambda>c.
          Inr (push \<lparr>nd_start_state = start, nd_accept_state = accept\<rparr> c))))"

definition emit_optional_repetition :: "compiler \<Rightarrow> fault + compiler" where
  "emit_optional_repetition c =
     and_then (pop c) (\<lambda>(data, c).
       let start = length (states (machine c));
           c = emplace_state 0 c;
           accept = length (states (machine c));
           c = emplace_state 0 c
       in and_then (connect_c start (- 1) [nd_start_state data, accept] c) (\<lambda>c.
          and_then (connect_c (nd_accept_state data) (- 1) [start] c) (\<lambda>c.
          Inr (push \<lparr>nd_start_state = start, nd_accept_state = accept\<rparr> c))))"

definition emit_optional :: "compiler \<Rightarrow> fault + compiler" where
  "emit_optional c =
     and_then (pop c) (\<lambda>(data, c).
       let start = length (states (machine c));
           c = emplace_state 0 c;
           accept = length (states (machine c));
           c = emplace_state 0 c
       in and_then (connect_c start (- 1) [nd_start_state data, accept] c) (\<lambda>c.
          and_then (connect_c (nd_accept_state data) (- 1) [accept] c) (\<lambda>c.
          Inr (push \<lparr>nd_start_state = start, nd_accept_state = accept\<rparr> c))))"

definition emit_atom :: "char \<Rightarrow> compiler \<Rightarrow> fault + compiler" where
  "emit_atom a c =
     (let start = length (states (machine c));
          c = emplace_state 0 c;
          accept = length (states (machine c));
          c = emplace_state 0 c
      in and_then (connect_c start (char_to_int a) [accept] c) (\<lambda>c.
         Inr (push \<lparr>nd_start_state = start, nd_accept_state = accept\<rparr> c)))"

text \<open>
  \<open>emit_node\<close> recurses on the operands of a node. Nothing in it bounds the recursion,
  so it is a partial function: \<open>None\<close> is a call that does not return.
\<close>

partial_function (option) emit_node :: "node list \<Rightarrow> nat \<Rightarrow> compiler \<Rightarrow> (fault + compiler) option" where
  "emit_node ns node c =
     (if node < length ns then
        (case ns ! node of
           Alternation first second \<Rightarrow>
             Option.bind (emit_node ns first c) (\<lambda>r. case r of Inl e \<Rightarrow> Some (Inl e) | Inr c \<Rightarrow>
             Option.bind (emit_node ns second c) (\<lambda>r. case r of Inl e \<Rightarrow> Some (Inl e) | Inr c \<Rightarrow>
             Some (emit_alternation c)))
         | Concatenation first second \<Rightarrow>
             Option.bind (emit_node ns first c) (\<lambda>r. case r of Inl e \<Rightarrow> Some (Inl e) | Inr c \<Rightarrow>
             Option.bind (emit_node ns second c) (\<lambda>r. case r of Inl e \<Rightarrow> Some (Inl e) | Inr c \<Rightarrow>
             Some (emit_concatenation c)))
         | Repetition first \<Rightarrow>
             Option.bind (emit_node ns first c) (\<lambda>r. case r of Inl e \<Rightarrow> Some (Inl e) | Inr c \<Rightarrow>
             Some (emit_repetition c))
         | OptionalRepetition first \<Rightarrow>
             Option.bind (emit_node ns first c) (\<lambda>r. case r of Inl e \<Rightarrow> Some (Inl e) | Inr c \<Rightarrow>
             Some (emit_optional_repetition c))
         | Optional first \<Rightarrow>
             Option.bind (emit_node ns first c) (\<lambda>r. case r of Inl e \<Rightarrow> Some (Inl e) | Inr c \<Rightarrow>
             Some (emit_optional c))
         | Atom a \<Rightarrow> Some (emit_atom a c))
      else Some (Inl OutOfBounds))"

declare emit_node.simps [code]

text \<open>The loop \<open>for (int i = 0; i < 256; i++)\<close> of \<open>compile_tree\<close>.\<close>

function scan_loop :: "int \<Rightarrow> nat \<Rightarrow> compiler \<Rightarrow> fault + compiler" where
  "scan_loop i start c =
     (if i < 256 then and_then (connect_c start i [start] c) (scan_loop (i + 1) start)
      else Inr c)"
  by pat_completeness auto
termination
  by (relation "measure (\<lambda>(i, start, c). nat (256 - i))") auto

declare scan_loop.simps [simp del]

definition finish_tree :: "parse_tree \<Rightarrow> compiler \<Rightarrow> fault + compiler" where
  "finish_tree t c =
     and_then (pop c) (\<lambda>(last_data, c).
     and_then
       (if flags t AND BEGIN_ANCHORED = 0 then
          (let start = length (states (machine c));
               c = emplace_state 0 c
           in and_then (scan_loop 0 start c) (\<lambda>c.
              and_then (connect_c start (- 1) [nd_start_state last_data] c) (\<lambda>c. Inr (start, c))))
        else Inr (nd_start_state last_data, c)) (\<lambda>(start, c).
       let c = c\<lparr>machine := (machine c)\<lparr>start_state := start\<rparr>\<rparr>;
           accept = length (states (machine c));
           c = emplace_state ACCEPTING c
       in if flags t AND END_ANCHORED = 0
          then connect_c (nd_accept_state last_data) (- 1) [accept] c
          else connect_c (nd_accept_state last_data) 0 [accept] c))"

definition compile_tree :: "compiler \<Rightarrow> parse_tree \<Rightarrow> (fault + compiler) option" where
  "compile_tree c t =
     Option.bind (emit_node (nodes t) (last_index (nodes t)) c)
       (\<lambda>r. case r of Inl e \<Rightarrow> Some (Inl e) | Inr c \<Rightarrow> Some (finish_tree t c))"

text \<open>A compiler on a default-constructed machine, as \<open>main\<close> sets it up.\<close>

definition new_compiler :: compiler where
  "new_compiler = \<lparr>machine = \<lparr>states = [], start_state = 0\<rparr>, node_stack = [], g_id = 0\<rparr>"

definition compile :: "parse_tree \<Rightarrow> (fault + nfa) option" where
  "compile t = map_option (map_sum id machine) (compile_tree new_compiler t)"

section \<open>Engine (\<open>struct NFAEngine\<close>)\<close>

text \<open>
  The engine points at the machine and mutates the stamps of its states, so the machine
  is part of the engine's state and is returned with it. \<open>cur_states\<close> and \<open>next_states\<close>
  are the vectors the two pointers of the source designate (they always point to different
  vectors, \<open>a\<close> and \<open>b\<close>); swapping the pointers exchanges the two fields. \<open>ptr\<close> is the
  offset of the source's \<open>ptr\<close> from the start of the text.
\<close>

record engine =
  e_machine :: nfa
  counter :: "32 word"
  cur_states :: "nat list"
  next_states :: "nat list"
  ptr :: nat

text \<open>
  The subject is a NUL-terminated C string: the bytes of \<open>text\<close>, then the terminator.
  What follows the terminator in memory is not part of the string; \<open>beyond\<close> gives those
  bytes, so that the model says what the engine computes when it reads them.
\<close>

definition deref :: "string \<Rightarrow> (nat \<Rightarrow> char) \<Rightarrow> nat \<Rightarrow> char" where
  "deref text beyond p =
     (if p < length text then text ! p
      else if p = length text then CHR 0x00
      else beyond (p - length text - 1))"

text \<open>\<open>accepting\<close>: some state of \<open>*cur_states\<close> has the flag \<open>ACCEPTING\<close>.\<close>

fun accepting_loop :: "nfa \<Rightarrow> nat list \<Rightarrow> fault + bool" where
  "accepting_loop m [] = Inr False"
| "accepting_loop m (s # ss) =
     (if s < length (states m) then
        (if state_flags (states m ! s) AND ACCEPTING \<noteq> 0 then Inr True
         else accepting_loop m ss)
      else Inl OutOfBounds)"

definition accepting :: "engine \<Rightarrow> fault + bool" where
  "accepting e = accepting_loop (e_machine e) (cur_states e)"

text \<open>
  The inner loop of \<open>step\<close> over the destinations of the transition on the current
  symbol: a destination whose stamp is not the counter is stamped and appended to
  \<open>*next_states\<close>.
\<close>

fun visit :: "nat list \<Rightarrow> engine \<Rightarrow> fault + engine" where
  "visit [] e = Inr e"
| "visit (state_index # rest) e =
     (if state_index < length (states (e_machine e)) then
        (if last_exec (states (e_machine e) ! state_index) \<noteq> counter e then
           visit rest
             (e\<lparr>e_machine := (e_machine e)\<lparr>states := (states (e_machine e))
                   [state_index := (states (e_machine e) ! state_index)\<lparr>last_exec := counter e\<rparr>]\<rparr>,
                next_states := next_states e @ [state_index]\<rparr>)
         else visit rest e)
      else Inl OutOfBounds)"

text \<open>
  The outer loop of \<open>step\<close>, \<open>for (i = 0; i < cur_states->size(); i++)\<close>. The body appends
  to \<open>*cur_states\<close>, so the bound moves and the loop need not end: \<open>None\<close> is a loop that
  does not return.
\<close>

partial_function (option) step_loop ::
  "string \<Rightarrow> (nat \<Rightarrow> char) \<Rightarrow> nat \<Rightarrow> engine \<Rightarrow> (fault + engine) option" where
  "step_loop text beyond i e =
     (if i < length (cur_states e) then
        (let state_index = cur_states e ! i in
         if state_index < length (states (e_machine e)) then
           (let st = states (e_machine e) ! state_index;
                e = (case state_find st (- 1) of
                       None \<Rightarrow> e
                     | Some t \<Rightarrow> e\<lparr>cur_states := cur_states e @ futures t\<rparr>)
            in case state_find st (char_to_int (deref text beyond (ptr e))) of
                 None \<Rightarrow> step_loop text beyond (i + 1) e
               | Some t \<Rightarrow>
                   (case visit (futures t) e of
                      Inl f \<Rightarrow> Some (Inl f)
                    | Inr e \<Rightarrow> step_loop text beyond (i + 1) e))
         else Some (Inl OutOfBounds))
      else Some (Inr e))"

declare step_loop.simps [code]

definition step :: "string \<Rightarrow> (nat \<Rightarrow> char) \<Rightarrow> engine \<Rightarrow> (fault + engine) option" where
  "step text beyond e =
     Option.bind (step_loop text beyond 0 (e\<lparr>counter := counter e + 1\<rparr>))
       (\<lambda>r. case r of Inl f \<Rightarrow> Some (Inl f) | Inr e \<Rightarrow> Some (Inr (e\<lparr>ptr := ptr e + 1\<rparr>)))"

text \<open>
  The loop of \<open>execute\<close>:
  \<open>while (!(accepted = accepting()) && !next_states->empty()) { swap; resize(0); step(); }\<close>.
\<close>

partial_function (option) execute_loop ::
  "string \<Rightarrow> (nat \<Rightarrow> char) \<Rightarrow> engine \<Rightarrow> (fault + bool \<times> engine) option" where
  "execute_loop text beyond e =
     (case accepting e of
        Inl f \<Rightarrow> Some (Inl f)
      | Inr accepted \<Rightarrow>
          if \<not> accepted \<and> next_states e \<noteq> [] then
            Option.bind (step text beyond (e\<lparr>cur_states := next_states e, next_states := []\<rparr>))
              (\<lambda>r. case r of Inl f \<Rightarrow> Some (Inl f) | Inr e \<Rightarrow> execute_loop text beyond e)
          else Some (Inr (accepted, e)))"

declare execute_loop.simps [code]

definition clear_stamps :: "nfa \<Rightarrow> nfa" where
  "clear_stamps m = m\<lparr>states := map (\<lambda>s. s\<lparr>last_exec := 0\<rparr>) (states m)\<rparr>"

definition execute :: "engine \<Rightarrow> string \<Rightarrow> (nat \<Rightarrow> char) \<Rightarrow> (fault + bool \<times> engine) option" where
  "execute e text beyond =
     execute_loop text beyond
       \<lparr>e_machine = clear_stamps (e_machine e), counter = 0, cur_states = [],
        next_states = [start_state (e_machine e)], ptr = 0\<rparr>"

text \<open>
  \<open>matches\<close>: an engine on the machine, as \<open>main\<close> sets it up, and the verdict of
  \<open>execute\<close>.
\<close>

definition new_engine :: "nfa \<Rightarrow> engine" where
  "new_engine m = \<lparr>e_machine = m, counter = 0, cur_states = [], next_states = [], ptr = 0\<rparr>"

definition matches :: "nfa \<Rightarrow> string \<Rightarrow> (nat \<Rightarrow> char) \<Rightarrow> (fault + bool) option" where
  "matches m text beyond = map_option (map_sum id fst) (execute (new_engine m) text beyond)"

text \<open>The whole pipeline of \<open>main\<close>: parse, compile, execute.\<close>

definition run :: "string \<Rightarrow> string \<Rightarrow> (nat \<Rightarrow> char) \<Rightarrow> (fault + bool) option" where
  "run pattern text beyond =
     Option.bind (compile (snd (parse_pattern pattern)))
       (\<lambda>r. case r of Inl f \<Rightarrow> Some (Inl f) | Inr m \<Rightarrow> matches m text beyond)"

text \<open>Memory after the terminator in which every byte is \<open>c\<close>.\<close>

definition filled :: "char \<Rightarrow> nat \<Rightarrow> char" where
  "filled c n = c"

section \<open>Evaluation of the compiler and the engine\<close>

text \<open>
  The state that scans for a match anywhere has one transition for each of the 256 byte
  values. \<open>scan_table\<close> names that list, so that lookups in it are decided by a lemma and
  not by walking the list.
\<close>

definition scan_table :: "nat \<Rightarrow> transition list" where
  "scan_table start = map (\<lambda>k. \<lparr>symbol = int k, futures = [start]\<rparr>) [0..<256]"

lemma state_find_conv: "state_find s sy = List.find (\<lambda>t. symbol t = sy) (transitions s)"
proof -
  have "map_option (\<lambda>i. ts ! i) (find_position ts sy) = List.find (\<lambda>t. symbol t = sy) ts" for ts
    by (induction ts) (auto simp: option.map_comp comp_def)
  then show ?thesis by (simp add: state_find_def)
qed

lemma find_position_upto:
  "find_position (map (\<lambda>k. \<lparr>symbol = int k, futures = fs\<rparr>) [m..<n] @ rest) sy =
     (if int m \<le> sy \<and> sy < int n then Some (nat sy - m)
      else map_option (\<lambda>j. j + (n - m)) (find_position rest sy))"
proof (induction "n - m" arbitrary: m)
  case 0
  then show ?case by (auto simp: option.map_ident)
next
  case (Suc d)
  then have mn: "m < n" and d: "d = n - Suc m" by auto
  have u: "[m..<n] = m # [Suc m..<n]" using mn by (simp add: upt_conv_Cons)
  have ih: "find_position (map (\<lambda>k. \<lparr>symbol = int k, futures = fs\<rparr>) [Suc m..<n] @ rest) sy =
     (if int (Suc m) \<le> sy \<and> sy < int n then Some (nat sy - Suc m)
      else map_option (\<lambda>j. j + (n - Suc m)) (find_position rest sy))"
    using Suc.hyps(1)[OF d] .
  show ?case
  proof (cases "sy = int m")
    case True
    then show ?thesis using mn by (simp add: u)
  next
    case False
    have "map_option Suc (map_option (\<lambda>j. j + (n - Suc m)) (find_position rest sy)) =
          map_option (\<lambda>j. j + (n - m)) (find_position rest sy)"
      using mn by (cases "find_position rest sy") (auto simp: Suc_diff_Suc)
    moreover have "int (Suc m) \<le> sy \<Longrightarrow> Suc (nat sy - Suc m) = nat sy - m"
      by linarith
    ultimately show ?thesis
      using False mn by (auto simp: u ih)
  qed
qed

lemma length_scan_table [simp]: "length (scan_table start) = 256"
  by (simp add: scan_table_def)

lemma find_position_scan_table:
  "find_position (scan_table start @ rest) sy =
     (if 0 \<le> sy \<and> sy < 256 then Some (nat sy)
      else map_option (\<lambda>j. j + 256) (find_position rest sy))"
  using find_position_upto[of "[start]" 0 256 rest sy] by (simp add: scan_table_def)

lemma find_scan_table:
  "List.find (\<lambda>t. symbol t = sy) (scan_table start @ rest) =
     (if 0 \<le> sy \<and> sy < 256 then Some \<lparr>symbol = sy, futures = [start]\<rparr>
      else List.find (\<lambda>t. symbol t = sy) rest)"
proof -
  have "List.find (\<lambda>t. symbol t = sy) (map (\<lambda>k. \<lparr>symbol = int k, futures = fs\<rparr>) [m..<n] @ rest) =
     (if int m \<le> sy \<and> sy < int n then Some \<lparr>symbol = sy, futures = fs\<rparr>
      else List.find (\<lambda>t. symbol t = sy) rest)" for m n fs
  proof (induction "n - m" arbitrary: m)
    case 0
    then show ?case by auto
  next
    case (Suc d)
    then have mn: "m < n" and d: "d = n - Suc m" by auto
    have u: "[m..<n] = m # [Suc m..<n]" using mn by (simp add: upt_conv_Cons)
    show ?case
      using Suc.hyps(1)[OF d] mn by (auto simp: u)
  qed
  from this[where m=0 and n=256 and fs="[start]"] show ?thesis by (simp add: scan_table_def)
qed


lemma find_position_scan_table_only:
  "find_position (scan_table start) sy = (if 0 \<le> sy \<and> sy < 256 then Some (nat sy) else None)"
  using find_position_scan_table[of start "[]" sy] by simp

lemma find_scan_table_only:
  "List.find (\<lambda>t. symbol t = sy) (scan_table start) =
     (if 0 \<le> sy \<and> sy < 256 then Some \<lparr>symbol = sy, futures = [start]\<rparr> else None)"
  using find_scan_table[of sy start "[]"] by simp

lemma nth_scan_table: "k < 256 \<Longrightarrow> scan_table start ! k = \<lparr>symbol = int k, futures = [start]\<rparr>"
  by (simp add: scan_table_def)

lemma scan_loop_fills:
  assumes "start < length (states (machine c))"
    and "transitions (states (machine c) ! start) = map (\<lambda>k. \<lparr>symbol = int k, futures = [start]\<rparr>) [0..<n]"
    and "n \<le> 256"
  shows "scan_loop (int n) start c =
     Inr (c\<lparr>machine := (machine c)\<lparr>states := (states (machine c))
            [start := (states (machine c) ! start)\<lparr>transitions := scan_table start\<rparr>]\<rparr>\<rparr>)"
  using assms
proof (induction "256 - n" arbitrary: n c)
  case 0
  then have n: "n = 256" by simp
  have "(states (machine c))[start := (states (machine c) ! start)\<lparr>transitions := scan_table start\<rparr>]
      = states (machine c)"
    using 0 n by (simp add: scan_table_def list_update_same_conv)
  then show ?case
    using n by (simp add: scan_loop.simps[of 256 start c])
next
  case (Suc d)
  then have n: "n < 256" and d: "d = 256 - Suc n" by auto
  let ?ts = "map (\<lambda>k. \<lparr>symbol = int k, futures = [start]\<rparr>) [0..<n]"
  have fp: "find_position ?ts (int n) = None"
    using find_position_upto[of "[start]" 0 n "[]" "int n"] by simp
  let ?s' = "(states (machine c) ! start)\<lparr>transitions := map (\<lambda>k. \<lparr>symbol = int k, futures = [start]\<rparr>) [0..<Suc n]\<rparr>"
  let ?c' = "c\<lparr>machine := (machine c)\<lparr>states := (states (machine c))[start := ?s']\<rparr>\<rparr>"
  have step: "connect_c start (int n) [start] c = Inr ?c'"
    using Suc.prems(1,2) fp
    by (simp add: connect_c_def connect_def state_get_def push_futures_def nth_append
        list_update_append)
  have "scan_loop (int (Suc n)) start ?c' =
     Inr (?c'\<lparr>machine := (machine ?c')\<lparr>states := (states (machine ?c'))
            [start := (states (machine ?c') ! start)\<lparr>transitions := scan_table start\<rparr>]\<rparr>\<rparr>)"
    using Suc.hyps(1)[OF d, of ?c'] Suc.prems(1) n by simp
  then show ?case
    using n step Suc.prems(1)
    by (simp add: scan_loop.simps[of "int n" start c] and_then_def add.commute)
qed

lemma scan_loop_fresh:
  "start < length (states (machine c)) \<Longrightarrow> transitions (states (machine c) ! start) = [] \<Longrightarrow>
   scan_loop 0 start c =
     Inr (c\<lparr>machine := (machine c)\<lparr>states := (states (machine c))
            [start := (states (machine c) ! start)\<lparr>transitions := scan_table start\<rparr>]\<rparr>\<rparr>)"
  using scan_loop_fills[of start c 0] by simp

lemmas compiler_eval = compile_def compile_tree_def finish_tree_def new_compiler_def
  emit_node.simps emit_atom_def emit_optional_def emit_optional_repetition_def
  emit_repetition_def emit_concatenation_def emit_alternation_def and_then_def
  push_def pop_def connect_c_def connect_def emplace_state_def push_futures_def
  state_get_def char_to_int_def scan_loop_fresh find_position_scan_table
  find_position_scan_table_only nth_append list_update_append ACCEPTING_def Let_def

lemmas engine_eval = run_def matches_def new_engine_def execute_def execute_loop.simps
  step_def step_loop.simps accepting_def clear_stamps_def deref_def state_find_conv
  find_scan_table find_scan_table_only char_to_int_def ACCEPTING_def Let_def

section \<open>What a run of the engine leaves unchanged\<close>

text \<open>
  The engine writes the stamps of the states and nothing else of the machine:
  \<open>clear_stamps\<close> of the machine is the same before and after.
\<close>

lemma clear_stamps_restamp:
  "i < length (states m) \<Longrightarrow>
   clear_stamps (m\<lparr>states := (states m)[i := (states m ! i)\<lparr>last_exec := w\<rparr>]\<rparr>) = clear_stamps m"
  by (simp add: clear_stamps_def map_update list_update_same_conv)

lemma visit_frame:
  "visit fs e = Inr e' \<Longrightarrow>
     clear_stamps (e_machine e') = clear_stamps (e_machine e) \<and>
     cur_states e' = cur_states e \<and> counter e' = counter e \<and> ptr e' = ptr e"
proof (induction fs arbitrary: e)
  case Nil
  then show ?case by simp
next
  case (Cons f fs)
  show ?case
  proof (cases "f < length (states (e_machine e))")
    case False
    with Cons.prems show ?thesis by simp
  next
    case True
    show ?thesis
    proof (cases "last_exec (states (e_machine e) ! f) \<noteq> counter e")
      case True
      with Cons.prems \<open>f < length (states (e_machine e))\<close>
      show ?thesis
        using Cons.IH[of "e\<lparr>e_machine := (e_machine e)\<lparr>states := (states (e_machine e))
            [f := (states (e_machine e) ! f)\<lparr>last_exec := counter e\<rparr>]\<rparr>,
            next_states := next_states e @ [f]\<rparr>"]
        by (simp add: clear_stamps_restamp)
    next
      case False
      with Cons.prems \<open>f < length (states (e_machine e))\<close> show ?thesis
        using Cons.IH[of e] by simp
    qed
  qed
qed


lemma step_loop_frame_aux:
  assumes "step_loop text beyond i e = Some y"
  shows "\<forall>e'. y = Inr e' \<longrightarrow> clear_stamps (e_machine e') = clear_stamps (e_machine e)
        \<and> counter e' = counter e \<and> ptr e' = ptr e"
proof -
  define P where "P = (\<lambda>(tx :: string) (bd :: nat \<Rightarrow> char) (i :: nat) (e :: engine) (y :: fault + engine).
     \<forall>e'. y = Inr e' \<longrightarrow> clear_stamps (e_machine e') = clear_stamps (e_machine e)
        \<and> counter e' = counter e \<and> ptr e' = ptr e)"
  have "P text beyond i e y"
  proof (rule step_loop.raw_induct[where P = P, OF _ assms], goal_cases)
    case (1 f tx bd i e y)
    note IH = "1"(1) and eq = "1"(2)
    show ?case
    proof (cases "i < length (cur_states e)")
      case False
      with eq show ?thesis by (auto simp: P_def)
    next
      case i: True
      show ?thesis
      proof (cases "cur_states e ! i < length (states (e_machine e))")
        case False
        with eq i show ?thesis by (auto simp: Let_def P_def)
      next
        case True
        define st where "st = states (e_machine e) ! (cur_states e ! i)"
        define e1 where "e1 = (case state_find st (- 1) of None \<Rightarrow> e
                         | Some t \<Rightarrow> e\<lparr>cur_states := cur_states e @ futures t\<rparr>)"
        have e1: "e_machine e1 = e_machine e" "counter e1 = counter e" "ptr e1 = ptr e"
          by (auto simp: e1_def split: option.splits)
        show ?thesis
        proof (cases "state_find st (char_to_int (deref tx bd (ptr e1)))")
          case None
          with eq i True have "f tx bd (i + 1) e1 = Some y"
            by (simp add: Let_def st_def[symmetric] e1_def[symmetric])
          from IH[OF this] e1 show ?thesis by (simp add: P_def)
        next
          case (Some t)
          show ?thesis
          proof (cases "visit (futures t) e1")
            case (Inl f)
            with eq i True Some show ?thesis
              by (auto simp: Let_def P_def st_def[symmetric] e1_def[symmetric])
          next
            case (Inr e2)
            with eq i True Some have "f tx bd (i + 1) e2 = Some y"
              by (simp add: Let_def st_def[symmetric] e1_def[symmetric])
            from IH[OF this] visit_frame[OF Inr] e1 show ?thesis by (simp add: P_def)
          qed
        qed
      qed
    qed
  qed
  then show ?thesis by (simp add: P_def)
qed

lemma step_loop_frame:
  "step_loop text beyond i e = Some (Inr e') \<Longrightarrow>
     clear_stamps (e_machine e') = clear_stamps (e_machine e)"
  using step_loop_frame_aux by blast

lemma step_frame:
  "step text beyond e = Some (Inr e') \<Longrightarrow>
     clear_stamps (e_machine e') = clear_stamps (e_machine e)"
proof -
  assume a: "step text beyond e = Some (Inr e')"
  then obtain r where r: "step_loop text beyond 0 (e\<lparr>counter := counter e + 1\<rparr>) = Some r"
    and k: "(case r of Inl x \<Rightarrow> Some (Inl x) | Inr e \<Rightarrow> Some (Inr (e\<lparr>ptr := ptr e + 1\<rparr>))) = Some (Inr e')"
    by (auto simp: step_def bind_eq_Some_conv)
  then obtain e2 where e2: "r = Inr e2" "e' = e2\<lparr>ptr := ptr e2 + 1\<rparr>"
    by (cases r) auto
  from step_loop_frame[OF r[unfolded e2(1)]] e2(2) show ?thesis by simp
qed

lemma execute_loop_frame_aux:
  assumes "execute_loop text beyond e = Some y"
  shows "\<forall>v e'. y = Inr (v, e') \<longrightarrow> clear_stamps (e_machine e') = clear_stamps (e_machine e)"
proof -
  define P where "P = (\<lambda>(tx :: string) (bd :: nat \<Rightarrow> char) (e :: engine) (y :: fault + bool \<times> engine).
     \<forall>v e'. y = Inr (v, e') \<longrightarrow> clear_stamps (e_machine e') = clear_stamps (e_machine e))"
  have "P text beyond e y"
  proof (rule execute_loop.raw_induct[where P = P, OF _ assms], goal_cases)
    case (1 f tx bd e y)
    note IH = "1"(1) and eq = "1"(2)
    show ?case
    proof (cases "accepting e")
      case (Inl f)
      with eq show ?thesis by (auto simp: P_def)
    next
      case (Inr accepted)
      show ?thesis
      proof (cases "\<not> accepted \<and> next_states e \<noteq> []")
        case False
        with eq Inr show ?thesis by (auto simp: P_def)
      next
        case True
        with eq Inr obtain r where
          r: "step tx bd (e\<lparr>cur_states := next_states e, next_states := []\<rparr>) = Some r"
          and k: "(case r of Inl x \<Rightarrow> Some (Inl x) | Inr e \<Rightarrow> f tx bd e) = Some y"
          by (auto simp: bind_eq_Some_conv)
        show ?thesis
        proof (cases r)
          case (Inl f)
          with k show ?thesis by (auto simp: P_def)
        next
          case (Inr e2)
          with k have "f tx bd e2 = Some y" by simp
          from IH[OF this] step_frame[OF r[unfolded Inr]] show ?thesis by (simp add: P_def)
        qed
      qed
    qed
  qed
  then show ?thesis by (simp add: P_def)
qed

lemma clear_stamps_idem: "clear_stamps (clear_stamps m) = clear_stamps m"
  by (simp add: clear_stamps_def comp_def)

lemma start_state_clear_stamps: "start_state (clear_stamps m) = start_state m"
  by (simp add: clear_stamps_def)

lemma execute_frame:
  "execute e text beyond = Some (Inr (v, e')) \<Longrightarrow>
     clear_stamps (e_machine e') = clear_stamps (e_machine e)"
  unfolding execute_def
  using execute_loop_frame_aux[of "text" beyond _ "Inr (v, e')"]
  by (fastforce simp: clear_stamps_idem)

lemma execute_reset:
  "clear_stamps (e_machine e1) = clear_stamps (e_machine e2) \<Longrightarrow>
   execute e1 text beyond = execute e2 text beyond"
  unfolding execute_def
  by (metis start_state_clear_stamps)


section \<open>Epsilon cycles\<close>

definition wiring :: "nfa \<Rightarrow> transition list list" where
  "wiring m = map transitions (states m)"

lemma wiring_clear_stamps: "wiring (clear_stamps m) = wiring m"
  by (simp add: wiring_def clear_stamps_def comp_def)

lemma wiring_frame: "clear_stamps m1 = clear_stamps m2 \<Longrightarrow> wiring m1 = wiring m2"
  by (metis wiring_clear_stamps)

lemma state_find_wiring:
  "idx < length (states m) \<Longrightarrow>
   state_find (states m ! idx) sy = List.find (\<lambda>t. symbol t = sy) (wiring m ! idx)"
  by (simp add: state_find_conv wiring_def)

lemma visit_returns:
  "\<forall>f \<in> set fs. f < length (states (e_machine e)) \<Longrightarrow> \<exists>e'. visit fs e = Inr e'"
proof (induction fs arbitrary: e)
  case Nil
  then show ?case by simp
next
  case (Cons f fs)
  then show ?case by (cases "last_exec (states (e_machine e) ! f) \<noteq> counter e") auto
qed

text \<open>
  An epsilon cycle: a set \<open>C\<close> of states each of which has an empty transition into
  \<open>C\<close>. Once \<open>step\<close> has such a state ahead of its index, its loop never returns: every
  state of the cycle it processes appends another one.
\<close>

definition closed_wiring :: "transition list list \<Rightarrow> bool" where
  "closed_wiring W = (\<forall>ts \<in> set W. \<forall>t \<in> set ts. \<forall>f \<in> set (futures t). f < length W)"

definition epsilon_cycle :: "transition list list \<Rightarrow> nat set \<Rightarrow> bool" where
  "epsilon_cycle W C = (\<forall>c \<in> C. c < length W \<and>
     (\<exists>t. List.find (\<lambda>t. symbol t = - 1) (W ! c) = Some t \<and> (\<exists>f \<in> set (futures t). f \<in> C)))"

definition cycle_ahead :: "transition list list \<Rightarrow> nat set \<Rightarrow> nat \<Rightarrow> engine \<Rightarrow> bool" where
  "cycle_ahead W C i e =
     (wiring (e_machine e) = W \<and> (\<forall>x \<in> set (cur_states e). x < length W) \<and>
      (\<exists>j \<ge> i. j < length (cur_states e) \<and> cur_states e ! j \<in> C))"

lemma cycle_ahead_step:
  assumes W: "closed_wiring W" "epsilon_cycle W C"
    and inv: "cycle_ahead W C i e"
  defines "st \<equiv> states (e_machine e) ! (cur_states e ! i)"
  defines "e1 \<equiv> (case state_find st (- 1) of None \<Rightarrow> e
                  | Some t \<Rightarrow> e\<lparr>cur_states := cur_states e @ futures t\<rparr>)"
  shows "i < length (cur_states e)" "cur_states e ! i < length (states (e_machine e))"
    "cycle_ahead W C (i + 1) e1"
    "state_find st sy = Some t \<Longrightarrow> \<exists>e2. visit (futures t) e1 = Inr e2 \<and> cycle_ahead W C (i + 1) e2"
proof -
  from inv have w: "wiring (e_machine e) = W"
    and v: "\<forall>x \<in> set (cur_states e). x < length W"
    and j: "\<exists>j \<ge> i. j < length (cur_states e) \<and> cur_states e ! j \<in> C"
    by (auto simp: cycle_ahead_def)
  have len: "length (states (e_machine e)) = length W" using w by (auto simp: wiring_def)
  from j show i: "i < length (cur_states e)" by auto
  then have idx: "cur_states e ! i < length W" using v by auto
  then show "cur_states e ! i < length (states (e_machine e))" using len by simp
  have find: "state_find st sy = List.find (\<lambda>t. symbol t = sy) (W ! (cur_states e ! i))" for sy
    using state_find_wiring[of "cur_states e ! i" "e_machine e" sy] idx len w by (simp add: st_def)
  have mem: "state_find st sy = Some t \<Longrightarrow> \<forall>f \<in> set (futures t). f < length W" for sy t
  proof -
    assume "state_find st sy = Some t"
    then have "t \<in> set (W ! (cur_states e ! i))"
      using find[of sy] by (auto simp: find_Some_iff)
    then show ?thesis using W(1) nth_mem[OF idx] by (auto simp: closed_wiring_def)
  qed
  have m1: "e_machine e1 = e_machine e"
    by (auto simp: e1_def split: option.splits)
  have v1: "\<forall>x \<in> set (cur_states e1). x < length W"
    using v mem[of "- 1"] by (auto simp: e1_def split: option.splits)
  have pre: "\<exists>us. cur_states e1 = cur_states e @ us"
    by (auto simp: e1_def split: option.splits)
  have j1: "\<exists>j \<ge> i + 1. j < length (cur_states e1) \<and> cur_states e1 ! j \<in> C"
  proof -
    from j obtain j where jj: "j \<ge> i" "j < length (cur_states e)" "cur_states e ! j \<in> C" by blast
    show ?thesis
    proof (cases "j = i")
      case False
      with jj pre show ?thesis
        by (intro exI[of _ j]) (auto simp: nth_append)
    next
      case True
      with jj W(2) obtain t f where
        t: "List.find (\<lambda>t. symbol t = - 1) (W ! (cur_states e ! i)) = Some t"
        and f: "f \<in> set (futures t)" "f \<in> C"
        by (auto simp: epsilon_cycle_def)
      then have c1: "cur_states e1 = cur_states e @ futures t"
        using find[of "- 1"] by (simp add: e1_def)
      from f(1) obtain k where k: "k < length (futures t)" "futures t ! k = f"
        by (auto simp: in_set_conv_nth)
      show ?thesis
        using c1 k f(2) i
        by (intro exI[of _ "length (cur_states e) + k"]) (auto simp: nth_append)
    qed
  qed
  show c1: "cycle_ahead W C (i + 1) e1"
    using w m1 v1 j1 by (simp add: cycle_ahead_def)
  show "\<exists>e2. visit (futures t) e1 = Inr e2 \<and> cycle_ahead W C (i + 1) e2"
    if "state_find st sy = Some t"
  proof -
    from mem[OF that] have "\<forall>f \<in> set (futures t). f < length (states (e_machine e1))"
      using len m1 by simp
    from visit_returns[OF this] obtain e2 where e2: "visit (futures t) e1 = Inr e2" by blast
    from visit_frame[OF e2] have "wiring (e_machine e2) = wiring (e_machine e1)"
      "cur_states e2 = cur_states e1"
      by (auto intro: wiring_frame)
    with c1 have "cycle_ahead W C (i + 1) e2" by (simp add: cycle_ahead_def)
    with e2 show ?thesis by blast
  qed
qed

lemma step_loop_diverges_aux:
  assumes W: "closed_wiring W" "epsilon_cycle W C"
    and r: "step_loop text beyond i e = Some y"
  shows "\<not> cycle_ahead W C i e"
proof -
  define P where "P = (\<lambda>(tx :: string) (bd :: nat \<Rightarrow> char) (i :: nat) (e :: engine)
     (y :: fault + engine). \<not> cycle_ahead W C i e)"
  have "P text beyond i e y"
  proof (rule step_loop.raw_induct[where P = P, OF _ r], goal_cases)
    case (1 f tx bd i e y)
    note IH = "1"(1) and eq = "1"(2)
    show ?case
      unfolding P_def
    proof
      assume inv: "cycle_ahead W C i e"
      define st where "st = states (e_machine e) ! (cur_states e ! i)"
      define e1 where "e1 = (case state_find st (- 1) of None \<Rightarrow> e
                       | Some t \<Rightarrow> e\<lparr>cur_states := cur_states e @ futures t\<rparr>)"
      note facts = cycle_ahead_step[OF W inv, folded st_def, folded e1_def]
      show False
      proof (cases "state_find st (char_to_int (deref tx bd (ptr e1)))")
        case None
        with eq facts(1,2) have "f tx bd (i + 1) e1 = Some y"
          by (simp add: Let_def st_def[symmetric] e1_def[symmetric])
        from IH[OF this] facts(3) show False by (simp add: P_def)
      next
        case (Some t)
        from facts(4)[OF Some] obtain e2 where
          e2: "visit (futures t) e1 = Inr e2" "cycle_ahead W C (i + 1) e2" by blast
        with eq facts(1,2) Some have "f tx bd (i + 1) e2 = Some y"
          by (simp add: Let_def st_def[symmetric] e1_def[symmetric])
        from IH[OF this] e2(2) show False by (simp add: P_def)
      qed
    qed
  qed
  then show ?thesis by (simp add: P_def)
qed

lemma step_loop_diverges:
  "closed_wiring W \<Longrightarrow> epsilon_cycle W C \<Longrightarrow> cycle_ahead W C i e \<Longrightarrow>
   step_loop text beyond i e = None"
  using step_loop_diverges_aux by (cases "step_loop text beyond i e") blast+

lemma execute_diverges:
  assumes W: "closed_wiring (wiring (e_machine e))" "epsilon_cycle (wiring (e_machine e)) C"
    and s: "start_state (e_machine e) \<in> C"
  shows "execute e text beyond = None"
proof -
  let ?W = "wiring (e_machine e)"
  let ?e0 = "\<lparr>e_machine = clear_stamps (e_machine e), counter = 0, cur_states = [],
        next_states = [start_state (e_machine e)], ptr = 0\<rparr>"
  let ?e1 = "?e0\<lparr>cur_states := next_states ?e0, next_states := []\<rparr>"
  have lt: "start_state (e_machine e) < length ?W" using W(2) s by (auto simp: epsilon_cycle_def)
  have "cycle_ahead ?W C 0 (?e1\<lparr>counter := counter ?e1 + 1\<rparr>)"
    using s lt by (simp add: cycle_ahead_def wiring_clear_stamps)
  from step_loop_diverges[OF W this] have "step text beyond ?e1 = None"
    by (simp add: step_def)
  then show ?thesis
    by (subst execute_def, subst execute_loop.simps) (simp add: accepting_def)
qed

section \<open>Observations used by the claims\<close>

text \<open>
  The nodes of an arena that are no node's operand. In a tree laid out bottom-up this
  is the root alone, at the highest index.
\<close>

fun children :: "node \<Rightarrow> nat list" where
  "children (Alternation a b) = [a, b]"
| "children (Concatenation a b) = [a, b]"
| "children (Repetition a) = [a]"
| "children (OptionalRepetition a) = [a]"
| "children (Optional a) = [a]"
| "children (Atom c) = []"

definition has_parent :: "node list \<Rightarrow> nat \<Rightarrow> bool" where
  "has_parent ns i = list_ex (\<lambda>n. i \<in> set (children n)) ns"

definition roots :: "node list \<Rightarrow> nat list" where
  "roots ns = filter (\<lambda>i. \<not> has_parent ns i) [0..<length ns]"

text \<open>The destinations of the empty transition of a state.\<close>

definition epsilon_futures :: "state \<Rightarrow> nat list" where
  "epsilon_futures s = (case state_find s (- 1) of None \<Rightarrow> [] | Some t \<Rightarrow> futures t)"

text \<open>The fragment stack and the empty transitions of every state of a compiler.\<close>

definition fragments_and_epsilons :: "compiler \<Rightarrow> node_data list \<times> nat list list" where
  "fragments_and_epsilons c = (node_stack c, map epsilon_futures (states (machine c)))"

text \<open>The stamps of a machine, and of the machine a run of \<open>execute\<close> leaves.\<close>

definition stamps :: "nfa \<Rightarrow> 32 word list" where
  "stamps m = map last_exec (states m)"

definition stamps_after :: "(fault + bool \<times> engine) option \<Rightarrow> (fault + 32 word list) option" where
  "stamps_after r = map_option (map_sum id (\<lambda>(v, e). stamps (e_machine e))) r"

text \<open>
  Everything of a machine but the stamps: the start state and, per state, its id, flags
  and transitions.
\<close>

definition nfa_structure :: "nfa \<Rightarrow> nat \<times> (nat \<times> int \<times> transition list) list" where
  "nfa_structure m =
     (start_state m, map (\<lambda>s. (state_id s, state_flags s, transitions s)) (states m))"

text \<open>The machine compiled from \<open>^a$\<close>, and the engine a run on \<open>a\<close> leaves.\<close>

definition anchored_a :: nfa where
  "anchored_a = \<lparr>states =
     [\<lparr>state_id = 0, last_exec = 0, state_flags = 0,
         transitions = [\<lparr>symbol = 97, futures = [1]\<rparr>]\<rparr>,
      \<lparr>state_id = 1, last_exec = 0, state_flags = 0,
         transitions = [\<lparr>symbol = 0, futures = [2]\<rparr>]\<rparr>,
      \<lparr>state_id = 2, last_exec = 0, state_flags = 1, transitions = []\<rparr>],
     start_state = 0\<rparr>"

definition used_engine :: engine where
  "used_engine = \<lparr>e_machine = anchored_a\<lparr>states := [(states anchored_a ! 0),
         (states anchored_a ! 1)\<lparr>last_exec := 1\<rparr>, (states anchored_a ! 2)\<lparr>last_exec := 2\<rparr>]\<rparr>,
        counter = 3, cur_states = [2], next_states = [], ptr = 3\<rparr>"

text \<open>
  The machine compiled from \<open>^(a*)*\<close>: the states 4, 2 and 3 (the start of the outer
  star, the start of the inner star and its accept) form a cycle of empty transitions.
\<close>

definition nested_star :: nfa where
  "nested_star = \<lparr>states =
     [\<lparr>state_id = 0, last_exec = 0, state_flags = 0,
         transitions = [\<lparr>symbol = 97, futures = [1]\<rparr>]\<rparr>,
      \<lparr>state_id = 1, last_exec = 0, state_flags = 0,
         transitions = [\<lparr>symbol = - 1, futures = [2]\<rparr>]\<rparr>,
      \<lparr>state_id = 2, last_exec = 0, state_flags = 0,
         transitions = [\<lparr>symbol = - 1, futures = [0, 3]\<rparr>]\<rparr>,
      \<lparr>state_id = 3, last_exec = 0, state_flags = 0,
         transitions = [\<lparr>symbol = - 1, futures = [4]\<rparr>]\<rparr>,
      \<lparr>state_id = 4, last_exec = 0, state_flags = 0,
         transitions = [\<lparr>symbol = - 1, futures = [2, 5]\<rparr>]\<rparr>,
      \<lparr>state_id = 5, last_exec = 0, state_flags = 0,
         transitions = [\<lparr>symbol = - 1, futures = [6]\<rparr>]\<rparr>,
      \<lparr>state_id = 6, last_exec = 0, state_flags = 1, transitions = []\<rparr>],
     start_state = 4\<rparr>"

text \<open>The compiler after it has emitted the atom of \<open>a*\<close>.\<close>

definition atom_emitted :: compiler where
  "atom_emitted = \<lparr>machine = \<lparr>states =
       [\<lparr>state_id = 0, last_exec = 0, state_flags = 0,
           transitions = [\<lparr>symbol = 97, futures = [1]\<rparr>]\<rparr>,
        \<lparr>state_id = 1, last_exec = 0, state_flags = 0, transitions = []\<rparr>],
       start_state = 0\<rparr>,
     node_stack = [\<lparr>nd_start_state = 0, nd_accept_state = 1\<rparr>], g_id = 2\<rparr>"

lemma nfa_structure_clear_stamps: "nfa_structure (clear_stamps m) = nfa_structure m"
  by (simp add: nfa_structure_def clear_stamps_def comp_def)

lemma nfa_structure_frame:
  "clear_stamps m1 = clear_stamps m2 \<Longrightarrow> nfa_structure m1 = nfa_structure m2"
  by (metis nfa_structure_clear_stamps)

lemma compile_anchored_a: "compile (snd (parse_pattern ''^a$'')) = Some (Inr anchored_a)"
  by (simp add: parser_eval compiler_eval anchored_a_def)

lemma compile_nested_star:
  "compile (snd (parse_pattern ''^(a*)*'')) = Some (Inr nested_star)"
  by (simp add: parser_eval compiler_eval nested_star_def)

lemma nested_star_cycle:
  "closed_wiring (wiring nested_star)" "epsilon_cycle (wiring nested_star) {2, 3, 4}"
  by (simp_all add: closed_wiring_def epsilon_cycle_def wiring_def nested_star_def)

lemma find_position_bound:
  "find_position ts sy = Some i \<Longrightarrow> i < length ts \<and> symbol (ts ! i) = sy"
  by (induction ts arbitrary: i) (auto split: if_splits)

lemma find_position_snoc:
  "find_position ts sy = None \<Longrightarrow>
   find_position (ts @ [t]) sy = (if symbol t = sy then Some (length ts) else None)"
  by (induction ts) (auto split: if_splits)

lemma find_position_update:
  "i < length ts \<Longrightarrow> symbol t = symbol (ts ! i) \<Longrightarrow>
   find_position (ts[i := t]) sy = find_position ts sy"
proof (induction ts arbitrary: i)
  case Nil
  then show ?case by simp
next
  case (Cons a ts)
  then show ?case by (cases i) auto
qed

text \<open>The state after \<open>auto &t = s.get(-1); t.futures.push_back(...)\<close>.\<close>

definition add_epsilon :: "nat list \<Rightarrow> state \<Rightarrow> state" where
  "add_epsilon fs s = (case state_get s (- 1) of (i, s1) \<Rightarrow> push_futures i fs s1)"

lemma epsilon_futures_add_epsilon:
  "epsilon_futures (add_epsilon fs s) = epsilon_futures s @ fs"
proof (cases "find_position (transitions s) (- 1)")
  case None
  then show ?thesis
    by (simp add: add_epsilon_def state_get_def push_futures_def epsilon_futures_def
        state_find_def find_position_snoc)
next
  case (Some i)
  from find_position_bound[OF Some] have i: "i < length (transitions s)"
    "symbol (transitions s ! i) = - 1" by auto
  then show ?thesis
    using Some
    by (simp add: add_epsilon_def state_get_def push_futures_def epsilon_futures_def
        state_find_def find_position_update)
qed

lemma connect_epsilon:
  "idx < length (states m) \<Longrightarrow>
   connect idx (- 1) fs m = Inr (m\<lparr>states := (states m)[idx := add_epsilon fs (states m ! idx)]\<rparr>)"
  by (simp add: connect_def add_epsilon_def split: prod.splits)

lemma epsilon_futures_fresh [simp]:
  "epsilon_futures \<lparr>state_id = a, last_exec = b, state_flags = c, transitions = []\<rparr> = []"
  by (simp add: epsilon_futures_def state_find_def)


text \<open>A verdict of \<open>matches\<close> is the verdict of a run of \<open>execute\<close> that returned.\<close>

lemma matches_verdict:
  "matches m tx bd = Some (Inr v) \<Longrightarrow> \<exists>e. execute (new_engine m) tx bd = Some (Inr (v, e))"
  unfolding matches_def
  by (cases "execute (new_engine m) tx bd"; cases "the (execute (new_engine m) tx bd)") auto

section \<open>Operands precede their node\<close>

text \<open>
  Every node is appended after its operands: \<open>parse_unit\<close> appends an atom, and the
  other functions append a node over nodes that are in the arena already.
\<close>

definition operands_below :: "node list \<Rightarrow> bool" where
  "operands_below ns = (\<forall>i < length ns. \<forall>c \<in> set (children (ns ! i)). c < i)"

definition extends :: "node list \<Rightarrow> presult \<Rightarrow> bool" where
  "extends ns r = (\<exists>ms. snd (snd r) = ns @ ms \<and> (fst r \<longrightarrow> ms \<noteq> []) \<and>
     (operands_below ns \<longrightarrow> operands_below (ns @ ms)))"

definition extends_loop :: "nat \<Rightarrow> node list \<Rightarrow> presult \<Rightarrow> bool" where
  "extends_loop first ns r = (\<exists>ms. snd (snd r) = ns @ ms \<and>
     (first < length ns \<longrightarrow> operands_below ns \<longrightarrow> operands_below (ns @ ms)))"

lemma last_index_less: "ns \<noteq> [] \<Longrightarrow> last_index ns < length ns"
proof -
  assume "ns \<noteq> []"
  then have "0 \<le> int (length ns) - 1" by (cases ns) auto
  then have "(int (length ns) - 1) mod 4294967296 \<le> int (length ns) - 1"
    by (rule zmod_le_nonneg_dividend)
  moreover have "0 \<le> (int (length ns) - 1) mod 4294967296" by simp
  ultimately show ?thesis unfolding last_index_def by linarith
qed

lemma operands_below_snoc:
  "operands_below ns \<Longrightarrow> \<forall>c \<in> set (children n). c < length ns \<Longrightarrow> operands_below (ns @ [n])"
  by (auto simp: operands_below_def nth_append less_Suc_eq)

lemma extends_refl: "\<not> ok \<Longrightarrow> extends ns (ok, p, ns)"
  by (simp add: extends_def)

lemma extends_loop_refl: "extends_loop first ns (ok, p, ns)"
  by (simp add: extends_loop_def)

lemma extends_fail: "extends ns (ok, p, ns') \<Longrightarrow> extends ns (False, p', ns')"
  by (auto simp: extends_def)

lemma extends_to_loop: "extends ns (ok, p, ns') \<Longrightarrow> extends_loop first ns (ok', p', ns')"
  by (auto simp: extends_def extends_loop_def)

lemma extends_then_loop:
  assumes "extends ns (True, p1, ns1)"
    and "extends_loop (last_index ns1) ns1 r"
  shows "extends ns r"
proof -
  from assms(1) obtain ms where ms: "ns1 = ns @ ms" "ms \<noteq> []"
    "operands_below ns \<longrightarrow> operands_below ns1" by (auto simp: extends_def)
  then have "ns1 \<noteq> []" by simp
  then have lt: "last_index ns1 < length ns1" by (rule last_index_less)
  from assms(2) obtain ms' where ms': "snd (snd r) = ns1 @ ms'"
    "last_index ns1 < length ns1 \<longrightarrow> operands_below ns1 \<longrightarrow> operands_below (ns1 @ ms')"
    by (auto simp: extends_loop_def)
  have "snd (snd r) = ns @ (ms @ ms')" using ms(1) ms'(1) by simp
  moreover have "ms @ ms' \<noteq> []" using ms(2) by simp
  moreover have "operands_below ns \<longrightarrow> operands_below (ns @ (ms @ ms'))"
    using ms(1,3) ms'(2) lt by simp
  ultimately show ?thesis unfolding extends_def by blast
qed

lemma extends_loop_step:
  assumes e: "extends ns (True, p1, ns1)"
    and n: "children n = [first, last_index ns1]"
    and l: "extends_loop (last_index (ns1 @ [n])) (ns1 @ [n]) r"
  shows "extends_loop first ns r"
proof -
  from e obtain ms where ms: "ns1 = ns @ ms" "ms \<noteq> []"
    "operands_below ns \<longrightarrow> operands_below ns1" by (auto simp: extends_def)
  then have ne: "ns1 \<noteq> []" by simp
  from l obtain ms' where ms': "snd (snd r) = (ns1 @ [n]) @ ms'"
    "last_index (ns1 @ [n]) < length (ns1 @ [n]) \<longrightarrow> operands_below (ns1 @ [n])
       \<longrightarrow> operands_below ((ns1 @ [n]) @ ms')"
    by (auto simp: extends_loop_def)
  have lt: "last_index (ns1 @ [n]) < length (ns1 @ [n])" by (rule last_index_less) simp
  have "snd (snd r) = ns @ (ms @ [n] @ ms')" using ms(1) ms'(1) by simp
  moreover have "operands_below (ns @ (ms @ [n] @ ms'))"
    if f: "first < length ns" and b: "operands_below ns"
  proof -
    have "operands_below ns1" using ms(3) b by simp
    moreover have "\<forall>c \<in> set (children n). c < length ns1"
      using n f ms(1) last_index_less[OF ne] by auto
    ultimately have "operands_below (ns1 @ [n])" by (rule operands_below_snoc)
    with ms'(2) lt have "operands_below ((ns1 @ [n]) @ ms')" by simp
    then show ?thesis using ms(1) by simp
  qed
  ultimately show ?thesis unfolding extends_loop_def by blast
qed

lemma extends_quantified:
  assumes e: "extends ns (True, p1, ns1)" and n: "children n = [last_index ns1]"
  shows "extends ns (True, p2, ns1 @ [n])"
proof -
  from e obtain ms where ms: "ns1 = ns @ ms" "ms \<noteq> []"
    "operands_below ns \<longrightarrow> operands_below ns1" by (auto simp: extends_def)
  then have ne: "ns1 \<noteq> []" by simp
  have "operands_below ns \<longrightarrow> operands_below (ns1 @ [n])"
    using ms(3) n last_index_less[OF ne] by (auto intro: operands_below_snoc)
  then show ?thesis using ms(1) unfolding extends_def
    by (intro exI[of _ "ms @ [n]"]) simp
qed

lemma extends_atom: "extends ns (True, p, ns @ [Atom c])"
  unfolding extends_def by (intro exI[of _ "[Atom c]"]) (auto intro: operands_below_snoc)

lemma parse_extends:
  "extends ns (parse p ns)"
  "extends ns (parse_alternation p ns)"
  "extends_loop first ns (alternation_loop first p ns)"
  "extends ns (parse_concatenation p ns)"
  "extends_loop first ns (concatenation_loop first p ns)"
  "extends ns (parse_quantifier p ns)"
  "extends ns (parse_unit p ns)"
  "extends ns (parse_group p ns)"
proof (induct p ns and p ns and first p ns and p ns and first p ns and p ns and p ns and p ns
    rule: parse_parse_alternation_alternation_loop_parse_concatenation_concatenation_loop_parse_quantifier_parse_unit_parse_group.induct)
  case (1 p ns)
  then show ?case by (simp add: parse.simps)
next
  case (2 p ns)
  obtain ok p1 ns1 where r: "parse_concatenation p ns = (ok, p1, ns1)"
    by (cases "parse_concatenation p ns") auto
  show ?case
  proof (cases ok)
    case True
    have "extends_loop (last_index ns1) ns1 (alternation_loop (last_index ns1) p1 ns1)"
      using "2.hyps"(2)[of ok "(p1, ns1)" p1 ns1] r True by simp
    with "2.hyps"(1) r True show ?thesis
      by (auto simp: parse_alternation.simps[of p ns] intro: extends_then_loop)
  next
    case False
    with "2.hyps"(1) r show ?thesis
      by (simp add: parse_alternation.simps[of p ns])
  qed
next
  case (3 first p ns)
  show ?case
  proof (cases "peek p = CHR ''|''")
    case bar: True
    obtain ok p1 ns1 where r: "parse_concatenation (tl p) ns = (ok, p1, ns1)"
      by (cases "parse_concatenation (tl p) ns") auto
    have c: "extends ns (ok, p1, ns1)" using "3.hyps"(1) bar r by simp
    show ?thesis
    proof (cases ok)
      case True
      have c': "extends ns (True, p1, ns1)" using c True by simp
      have "extends_loop (last_index (ns1 @ [Alternation first (last_index ns1)]))
               (ns1 @ [Alternation first (last_index ns1)])
               (alternation_loop (last_index (ns1 @ [Alternation first (last_index ns1)])) p1
                 (ns1 @ [Alternation first (last_index ns1)]))"
        using "3.hyps"(2)[OF bar, of ok "(p1, ns1)" p1 ns1] r True by simp
      from extends_loop_step[OF c' _ this] show ?thesis
        using r True bar by (simp add: alternation_loop.simps[of first p ns] Let_def)
    next
      case False
      then show ?thesis
        using r bar c
        by (auto simp: alternation_loop.simps[of first p ns] intro: extends_to_loop)
    qed
  next
    case False
    then show ?thesis
      by (simp add: alternation_loop.simps[of first p ns] extends_loop_refl)
  qed
next
  case (4 p ns)
  obtain ok p1 ns1 where r: "parse_quantifier p ns = (ok, p1, ns1)"
    by (cases "parse_quantifier p ns") auto
  show ?case
  proof (cases ok)
    case True
    have "extends_loop (last_index ns1) ns1 (concatenation_loop (last_index ns1) p1 ns1)"
      using "4.hyps"(2)[of ok "(p1, ns1)" p1 ns1] r True by simp
    with "4.hyps"(1) r True show ?thesis
      by (auto simp: parse_concatenation.simps[of p ns] intro: extends_then_loop)
  next
    case False
    with "4.hyps"(1) r show ?thesis
      by (simp add: parse_concatenation.simps[of p ns])
  qed
next
  case (5 first p ns)
  obtain ok p1 ns1 where r: "parse_quantifier p ns = (ok, p1, ns1)"
    by (cases "parse_quantifier p ns") auto
  have c: "extends ns (ok, p1, ns1)" using "5.hyps"(1) r by simp
  show ?case
  proof (cases ok)
    case True
    have c': "extends ns (True, p1, ns1)" using c True by simp
    have "extends_loop (last_index (ns1 @ [Concatenation first (last_index ns1)]))
             (ns1 @ [Concatenation first (last_index ns1)])
             (concatenation_loop (last_index (ns1 @ [Concatenation first (last_index ns1)])) p1
               (ns1 @ [Concatenation first (last_index ns1)]))"
      using "5.hyps"(2)[of ok "(p1, ns1)" p1 ns1] r True by simp
    from extends_loop_step[OF c' _ this] show ?thesis
      using r True by (simp add: concatenation_loop.simps[of first p ns] Let_def)
  next
    case False
    then show ?thesis
      using r c
      by (auto simp: concatenation_loop.simps[of first p ns] intro: extends_to_loop)
  qed
next
  case (6 p ns)
  obtain ok p1 ns1 where r: "parse_unit p ns = (ok, p1, ns1)"
    by (cases "parse_unit p ns") auto
  have c: "extends ns (ok, p1, ns1)" using "6.hyps" r by simp
  show ?case
  proof (cases ok)
    case True
    have c': "extends ns (True, p1, ns1)" using c True by simp
    then show ?thesis
      using r True extends_quantified[OF c']
      by (auto simp: parse_quantifier.simps[of p ns] Let_def)
  next
    case False
    then show ?thesis using r c by (simp add: parse_quantifier.simps[of p ns])
  qed
next
  case (7 p ns)
  show ?case
    using "7.hyps"
    by (auto simp: parse_unit.simps[of p ns] extends_atom extends_refl split: prod.splits
        intro: extends_fail)
next
  case (8 p ns)
  show ?case
  proof (cases "peek p = CHR ''(''")
    case True
    obtain ok p1 ns1 where r: "parse (tl p) ns = (ok, p1, ns1)"
      by (cases "parse (tl p) ns") auto
    have c: "extends ns (ok, p1, ns1)" using "8.hyps" True r by simp
    then have "ok \<Longrightarrow> extends ns (True, q, ns1)" for q
      by (auto simp: extends_def)
    then show ?thesis
      using True r c
      by (auto simp: parse_group.simps[of p ns] intro: extends_fail)
  next
    case False
    then show ?thesis by (simp add: parse_group.simps[of p ns] extends_refl)
  qed
qed

lemma build_loop_operands_below:
  "operands_below (nodes t) \<Longrightarrow> operands_below (nodes (snd (snd (build_loop p t))))"
proof (induct p t rule: build_loop.induct)
  case (1 p t)
  obtain ok p1 ns1 where r: "parse p (nodes t) = (ok, p1, ns1)"
    by (cases "parse p (nodes t)") auto
  from parse_extends(1)[of "nodes t" p] r "1.prems" have b: "operands_below ns1"
    by (auto simp: extends_def)
  show ?case
  proof (cases "peek p \<noteq> CHR 0x00 \<and> peek p \<noteq> CHR ''$'' \<and> ok")
    case True
    then show ?thesis
      using "1.hyps"[OF _ _ r[symmetric] refl] b
      by (simp add: build_loop.simps[of p t] r)
  next
    case False
    then show ?thesis
      using "1.prems" r b by (auto simp: build_loop.simps[of p t])
  qed
qed

lemma parse_pattern_operands_below: "operands_below (nodes (snd (parse_pattern p)))"
proof -
  have e: "operands_below (nodes empty_tree)"
    "operands_below (nodes (empty_tree\<lparr>flags := flags empty_tree OR BEGIN_ANCHORED\<rparr>))"
    by (simp_all add: operands_below_def empty_tree_def)
  have "snd (parse_pattern p) = snd (snd (build_parse_tree p empty_tree))"
    by (simp add: parse_pattern_def split: prod.splits)
  then show ?thesis
    using build_loop_operands_below[OF e(1), of p]
      build_loop_operands_below[OF e(2), of "tl p"]
    by (simp add: build_parse_tree_def)
qed

section \<open>The claims\<close>

text \<open>
  C1 (\<open>matches\<close> terminates on every machine compiled from a successfully parsed
  pattern). The pattern \<open>^(a*)*\<close> parses and compiles, and on the machine it compiles to
  \<open>matches\<close> returns on no text: the first \<open>step\<close> reaches the cycle of empty transitions
  4, 2, 3 and appends to \<open>*cur_states\<close> for ever.
\<close>

theorem nested_star_never_returns:
  "fst (parse_pattern ''^(a*)*'') = True \<and>
   compile (snd (parse_pattern ''^(a*)*'')) = Some (Inr nested_star) \<and>
   matches nested_star text beyond = None"
proof -
  have "execute (new_engine nested_star) text beyond = None"
    by (rule execute_diverges[where C = "{2, 3, 4}"])
      (simp_all add: new_engine_def nested_star_cycle, simp add: nested_star_def)
  moreover have "fst (parse_pattern ''^(a*)*'') = True"
    by (simp add: parser_eval)
  ultimately show ?thesis
    by (simp add: compile_nested_star matches_def)
qed

text \<open>
  C2 (an empty parse tree compiles to a machine that accepts only the empty string). The
  empty pattern parses to the empty arena, and \<open>compile_tree\<close> has no case for it: it
  calls \<open>emit_node\<close> on index \<open>nodes.size() - 1\<close>, which wraps to 4294967295, and indexes
  the empty vector.
\<close>

theorem empty_tree_out_of_bounds:
  "parse_pattern '''' = (True, \<lparr>flags = 0, nodes = []\<rparr>) \<and>
   last_index (nodes \<lparr>flags = 0, nodes = []\<rparr>) = 4294967295 \<and>
   compile \<lparr>flags = 0, nodes = []\<rparr> = Some (Inl OutOfBounds)"
  by (simp add: parser_eval compiler_eval)

text \<open>
  C3 (as stated: the accept state of the operand of \<open>*\<close> has empty transitions to both the
  start and the accept of the fragment). For \<open>a*\<close> the fragment is (2, 3) and the accept
  state of the atom, state 1, has the one empty transition to 2; the accept 3 is reached
  through the start.
\<close>

theorem optional_repetition_accept_edge:
  "map_option (map_sum id fragments_and_epsilons)
     (emit_node [Atom CHR ''a'', OptionalRepetition 0] 1 new_compiler) =
   Some (Inr ([\<lparr>nd_start_state = 2, nd_accept_state = 3\<rparr>], [[], [2], [0, 3], []]))"
  by (simp add: compiler_eval fragments_and_epsilons_def epsilon_futures_def state_find_conv)

text \<open>
  C3 (amended): for an \<open>OptionalRepetition\<close> node whose operand has been emitted with the
  fragment (X.start, X.accept) on top of the stack, \<open>emit_node\<close> returns, replaces that
  fragment by (start, accept), two new states, gives start the empty transition to
  X.start and accept, in this order, appends start, and nothing else, to the empty
  transition of X.accept, gives accept no transition and leaves every other state as it
  was.
\<close>

theorem optional_repetition_wiring:
  assumes n: "node < length ns" "ns ! node = OptionalRepetition x"
    and child: "emit_node ns x c = Some (Inr c1)"
    and stack: "node_stack c1 \<noteq> []"
    and acc: "nd_accept_state (last (node_stack c1)) < length (states (machine c1))"
  shows "\<exists>c2. emit_node ns node c = Some (Inr c2) \<and>
     node_stack c2 = butlast (node_stack c1) @
       [\<lparr>nd_start_state = length (states (machine c1)),
         nd_accept_state = length (states (machine c1)) + 1\<rparr>] \<and>
     length (states (machine c2)) = length (states (machine c1)) + 2 \<and>
     epsilon_futures (states (machine c2) ! length (states (machine c1))) =
       [nd_start_state (last (node_stack c1)), length (states (machine c1)) + 1] \<and>
     epsilon_futures (states (machine c2) ! nd_accept_state (last (node_stack c1))) =
       epsilon_futures (states (machine c1) ! nd_accept_state (last (node_stack c1)))
         @ [length (states (machine c1))] \<and>
     transitions (states (machine c2) ! (length (states (machine c1)) + 1)) = [] \<and>
     (\<forall>k < length (states (machine c1)). k \<noteq> nd_accept_state (last (node_stack c1))
        \<longrightarrow> states (machine c2) ! k = states (machine c1) ! k)"
proof -
  define L where "L = length (states (machine c1))"
  define d where "d = last (node_stack c1)"
  have e: "emit_node ns node c = Some (emit_optional_repetition c1)"
    using n child by (subst emit_node.simps) simp
  have "\<exists>c2. emit_optional_repetition c1 = Inr c2 \<and>
     node_stack c2 = butlast (node_stack c1) @ [\<lparr>nd_start_state = L, nd_accept_state = L + 1\<rparr>] \<and>
     length (states (machine c2)) = L + 2 \<and>
     epsilon_futures (states (machine c2) ! L) = [nd_start_state d, L + 1] \<and>
     epsilon_futures (states (machine c2) ! nd_accept_state d) =
       epsilon_futures (states (machine c1) ! nd_accept_state d) @ [L] \<and>
     transitions (states (machine c2) ! (L + 1)) = [] \<and>
     (\<forall>k < L. k \<noteq> nd_accept_state d \<longrightarrow> states (machine c2) ! k = states (machine c1) ! k)"
    using stack acc[folded d_def L_def]
    by (simp add: emit_optional_repetition_def pop_def and_then_def Let_def emplace_state_def
        connect_c_def connect_epsilon push_def nth_append epsilon_futures_add_epsilon
        L_def[symmetric] d_def[symmetric] nth_list_update)
  with e show ?thesis by (simp add: L_def d_def)
qed

theorem optional_repetition_wiring_witness:
  "(1 :: nat) < length [Atom CHR ''a'', OptionalRepetition 0] \<and>
   [Atom CHR ''a'', OptionalRepetition 0] ! 1 = OptionalRepetition 0 \<and>
   emit_node [Atom CHR ''a'', OptionalRepetition 0] 0 new_compiler = Some (Inr atom_emitted) \<and>
   node_stack atom_emitted \<noteq> [] \<and>
   nd_accept_state (last (node_stack atom_emitted)) < length (states (machine atom_emitted)) \<and>
   (\<exists>c2. emit_node [Atom CHR ''a'', OptionalRepetition 0] 1 new_compiler = Some (Inr c2) \<and>
      node_stack c2 = [\<lparr>nd_start_state = 2, nd_accept_state = 3\<rparr>] \<and>
      length (states (machine c2)) = 4 \<and>
      epsilon_futures (states (machine c2) ! 2) = [0, 3] \<and>
      epsilon_futures (states (machine c2) ! 1) = [2])"
proof -
  have h: "(1 :: nat) < length [Atom CHR ''a'', OptionalRepetition 0]"
    "[Atom CHR ''a'', OptionalRepetition 0] ! 1 = OptionalRepetition 0"
    "emit_node [Atom CHR ''a'', OptionalRepetition 0] 0 new_compiler = Some (Inr atom_emitted)"
    "node_stack atom_emitted \<noteq> []"
    "nd_accept_state (last (node_stack atom_emitted)) < length (states (machine atom_emitted))"
    by (simp_all add: compiler_eval atom_emitted_def)
  have L: "length (states (machine atom_emitted)) = 2"
    and D: "last (node_stack atom_emitted) = \<lparr>nd_start_state = 0, nd_accept_state = 1\<rparr>"
    and B: "butlast (node_stack atom_emitted) = []"
    and E: "epsilon_futures (states (machine atom_emitted) ! Suc 0) = []"
    by (simp_all add: atom_emitted_def)
  have "\<exists>c2. emit_node [Atom CHR ''a'', OptionalRepetition 0] 1 new_compiler = Some (Inr c2) \<and>
      node_stack c2 = [\<lparr>nd_start_state = 2, nd_accept_state = 3\<rparr>] \<and>
      length (states (machine c2)) = 4 \<and>
      epsilon_futures (states (machine c2) ! 2) = [0, 3] \<and>
      epsilon_futures (states (machine c2) ! 1) = [2]"
    using optional_repetition_wiring[OF h] by (auto simp: L D B E)
  with h show ?thesis by blast
qed

text \<open>
  C4 (as stated: a call to \<open>matches\<close> leaves the machine entirely unchanged, the stamp
  being call-local). The stamp is the field \<open>last_exec\<close> of the machine's states, and
  \<open>execute\<close> writes it: on the machine of \<open>^a$\<close>, whose stamps are 0, a run on \<open>a\<close> leaves
  the stamps 0, 1 and 2.
\<close>

theorem execute_writes_stamps:
  "compile (snd (parse_pattern ''^a$'')) = Some (Inr anchored_a) \<and>
   stamps anchored_a = [0, 0, 0] \<and>
   stamps_after (execute (new_engine anchored_a) ''a'' (filled CHR 0x00)) = Some (Inr [0, 1, 2])"
  by (simp add: compile_anchored_a)
     (simp add: anchored_a_def stamps_def stamps_after_def engine_eval filled_def)

text \<open>
  C4 (amended): the stamp is a field of the machine's states. A run of \<open>execute\<close> that
  returns has changed nothing of the machine but the stamps (the start state and every
  state's id, flags and transitions are as before), and the stamps it leaves have no
  effect on a later run: on every text, and whatever bytes follow the terminator of that
  text, the engine the run left, and a new engine on the machine the run left, return
  what they return before the run. In particular a second run on the same text, with the
  same bytes after its terminator (the engine reads them too), returns the same verdict.
\<close>

theorem execute_changes_stamps_only:
  "execute e text0 beyond0 = Some (Inr (v0, e0)) \<Longrightarrow>
     nfa_structure (e_machine e0) = nfa_structure (e_machine e) \<and>
     execute e0 text beyond = execute e text beyond \<and>
     matches (e_machine e0) text beyond = matches (e_machine e) text beyond \<and>
     execute e0 text0 beyond0 = Some (Inr (v0, e0))"
proof -
  assume a: "execute e text0 beyond0 = Some (Inr (v0, e0))"
  from execute_frame[OF a] have f: "clear_stamps (e_machine e0) = clear_stamps (e_machine e)" .
  have r: "execute e0 tx bd = execute e tx bd" for tx bd
    using f by (rule execute_reset)
  have "clear_stamps (e_machine (new_engine (e_machine e0))) =
      clear_stamps (e_machine (new_engine (e_machine e)))"
    using f by (simp add: new_engine_def)
  from execute_reset[OF this, of "text" beyond]
  have "matches (e_machine e0) text beyond = matches (e_machine e) text beyond"
    unfolding matches_def by simp
  with r[of "text" beyond] r[of text0 beyond0] a nfa_structure_frame[OF f]
  show ?thesis by simp
qed

theorem execute_changes_stamps_only_witness:
  "execute (new_engine anchored_a) ''a'' (filled CHR 0x00) = Some (Inr (True, used_engine)) \<and>
   nfa_structure (e_machine used_engine) = nfa_structure anchored_a \<and>
   execute used_engine ''ab'' (filled CHR ''b'') =
     execute (new_engine anchored_a) ''ab'' (filled CHR ''b'') \<and>
   matches (e_machine used_engine) ''ab'' (filled CHR ''b'') =
     matches anchored_a ''ab'' (filled CHR ''b'') \<and>
   execute used_engine ''a'' (filled CHR 0x00) = Some (Inr (True, used_engine))"
proof -
  have h: "execute (new_engine anchored_a) ''a'' (filled CHR 0x00) = Some (Inr (True, used_engine))"
    by (simp add: used_engine_def anchored_a_def engine_eval filled_def)
  from execute_changes_stamps_only[OF h, of "''ab''" "filled CHR ''b''"] h show ?thesis
    by (simp add: new_engine_def)
qed

text \<open>
  C5 (as stated: a pattern with text after \<open>$\<close>, such as \<open>a$b\<close>, is a syntax error).
  It is not: \<open>build_parse_tree\<close> leaves its loop at the \<open>$\<close> and returns true.
\<close>

theorem trailing_after_dollar_accepted:
  "parse_pattern ''a$b'' = (True, \<lparr>flags = END_ANCHORED, nodes = [Atom CHR ''a'']\<rparr>)"
  by (simp add: parser_eval)

text \<open>
  C5 (amended): a \<open>$\<close> ends parsing. When the parser succeeds on a pattern that ends in a
  \<open>$\<close> and reads it to its end, it succeeds on that pattern followed by any text, with the
  same tree, marked end-anchored, and with the pointer right after the \<open>$\<close>: the text
  after the \<open>$\<close> is never examined.
\<close>

theorem dollar_truncates:
  "build_parse_tree (u @ ''$'') empty_tree = (True, [], t) \<longrightarrow>
     build_parse_tree (u @ ''$'' @ rest) empty_tree = (True, rest, t) \<and>
     parse_pattern (u @ ''$'' @ rest) = (True, t) \<and>
     flags t AND END_ANCHORED = END_ANCHORED"
proof
  assume "build_parse_tree (u @ ''$'') empty_tree = (True, [], t)"
  from build_parse_tree_dollar[OF this, of rest]
  show "build_parse_tree (u @ ''$'' @ rest) empty_tree = (True, rest, t) \<and>
     parse_pattern (u @ ''$'' @ rest) = (True, t) \<and>
     flags t AND END_ANCHORED = END_ANCHORED"
    by (simp add: parse_pattern_def)
qed

theorem dollar_truncates_witness:
  "build_parse_tree (''(a|b)*'' @ ''$'') empty_tree =
     (True, [], \<lparr>flags = END_ANCHORED,
        nodes = [Atom CHR ''a'', Atom CHR ''b'', Alternation 0 1,
        OptionalRepetition 2]\<rparr>) \<and>
   build_parse_tree (''(a|b)*'' @ ''$'' @ '')+.'') empty_tree =
     (True, '')+.'', \<lparr>flags = END_ANCHORED,
        nodes = [Atom CHR ''a'', Atom CHR ''b'', Alternation 0 1,
        OptionalRepetition 2]\<rparr>) \<and>
   parse_pattern (''(a|b)*'' @ ''$'' @ '')+.'') =
     (True, \<lparr>flags = END_ANCHORED,
        nodes = [Atom CHR ''a'', Atom CHR ''b'', Alternation 0 1,
        OptionalRepetition 2]\<rparr>)"
proof -
  have h: "build_parse_tree (''(a|b)*'' @ ''$'') empty_tree =
     (True, [], \<lparr>flags = END_ANCHORED,
        nodes = [Atom CHR ''a'', Atom CHR ''b'', Alternation 0 1,
        OptionalRepetition 2]\<rparr>)"
    by (simp add: parser_simps build_loop.simps build_parse_tree_def empty_tree_def peek_def
        isalpha_def isdigit_def tolower_def last_index_def BEGIN_ANCHORED_def)
  from dollar_truncates[where u = "''(a|b)*''" and rest = "'')+.''" and
      t = "\<lparr>flags = END_ANCHORED,
        nodes = [Atom CHR ''a'', Atom CHR ''b'', Alternation 0 1,
        OptionalRepetition 2]\<rparr>"] h
  show ?thesis
    by simp
qed

text \<open>
  C6 (the engine never reads a byte past the end-of-input sentinel). \<open>step\<close> increments
  \<open>ptr\<close> after the sentinel as after any byte, and the state that scans for a match loops
  on the byte 0 too, so \<open>execute\<close> goes on stepping. The verdict on the text \<open>c\<close> for the
  pattern \<open>a\<close> is decided by the bytes after the terminator: true when they are \<open>a\<close>, false
  when they are 0x80.
\<close>

theorem verdict_depends_on_bytes_past_terminator:
  "run ''a'' ''c'' (filled CHR ''a'') = Some (Inr True) \<and>
   run ''a'' ''c'' (filled (CHR 0x80)) = Some (Inr False)"
  by (simp add: parser_eval compiler_eval engine_eval filled_def)

text \<open>
  C7: the pipeline on \<open>^a$\<close> and \<open>a\<close> returns true, on \<open>^a$\<close> and \<open>ab\<close> false, and on \<open>a\<close>
  and \<open>xax\<close> true, whatever follows the text in memory.
\<close>

theorem pinned_verdicts:
  "run ''^a$'' ''a'' beyond = Some (Inr True) \<and>
   run ''^a$'' ''ab'' beyond = Some (Inr False) \<and>
   run ''a'' ''xax'' beyond = Some (Inr True)"
  by (simp add: parser_eval compiler_eval engine_eval)

text \<open>
  C8 (as stated: every pattern with a character outside the alphabet and the operators
  is rejected). The pattern \<open>a$.\<close> contains \<open>.\<close> and is accepted, because parsing
  stops at the \<open>$\<close>.
\<close>

theorem out_of_grammar_after_dollar_accepted:
  "fst (parse_pattern ''a$.'') = True"
  by (simp add: parser_eval)

text \<open>
  C8 (amended): the parser returns false on \<open>(a\<close>, on \<open>a**\<close>, on \<open>.\<close> and on \<open>a|\<close>; on
  every pattern that has a character outside the atoms and the operators
  \<open>( ) | ? * + ^ $\<close> with no \<open>$\<close> before it; and on every pattern that has two
  quantifiers in a row with no \<open>$\<close> before them.
\<close>

theorem malformed_patterns_rejected:
  "fst (parse_pattern ''(a'') = False \<and>
   fst (parse_pattern ''a**'') = False \<and>
   fst (parse_pattern ''.'') = False \<and>
   fst (parse_pattern ''a|'') = False \<and>
   (\<not> in_grammar c \<and> c \<noteq> CHR 0x00 \<and> CHR ''$'' \<notin> set pre \<and> CHR 0x00 \<notin> set pre
      \<longrightarrow> fst (parse_pattern (pre @ c # post)) = False) \<and>
   (quantifier_char q1 \<and> quantifier_char q2 \<and> CHR ''$'' \<notin> set pre \<and> CHR 0x00 \<notin> set pre
      \<longrightarrow> fst (parse_pattern (pre @ q1 # q2 # post)) = False)"
proof -
  have fst_eq: "fst (parse_pattern x) = fst (build_parse_tree x empty_tree)" for x
    by (simp add: parse_pattern_def split: prod.splits)
  have "\<not> in_grammar c \<and> c \<noteq> CHR 0x00 \<and> CHR ''$'' \<notin> set pre \<and> CHR 0x00 \<notin> set pre
      \<longrightarrow> fst (parse_pattern (pre @ c # post)) = False"
    using build_parse_tree_rejects[of c pre post empty_tree] by (simp add: fst_eq)
  moreover have "quantifier_char q1 \<and> quantifier_char q2 \<and> CHR ''$'' \<notin> set pre \<and>
      CHR 0x00 \<notin> set pre \<longrightarrow> fst (parse_pattern (pre @ q1 # q2 # post)) = False"
    using build_parse_tree_rejects_chained[of q1 q2 pre post empty_tree] by (simp add: fst_eq)
  moreover have "fst (parse_pattern ''(a'') = False" by (simp add: parser_eval)
  moreover have "fst (parse_pattern ''a**'') = False" by (simp add: parser_eval)
  moreover have "fst (parse_pattern ''.'') = False" by (simp add: parser_eval)
  moreover have "fst (parse_pattern ''a|'') = False" by (simp add: parser_eval)
  ultimately show ?thesis by blast
qed

theorem malformed_patterns_rejected_witness:
  "\<not> in_grammar CHR ''.'' \<and> CHR ''.'' \<noteq> CHR 0x00 \<and>
   quantifier_char CHR ''*'' \<and> quantifier_char CHR ''+'' \<and>
   CHR ''$'' \<notin> set ''ab'' \<and> CHR 0x00 \<notin> set ''ab'' \<and>
   fst (parse_pattern ''ab.c'') = False \<and> fst (parse_pattern ''ab*+c'') = False"
proof -
  have h: "\<not> in_grammar CHR ''.'' \<and> CHR ''.'' \<noteq> CHR 0x00 \<and>
      quantifier_char CHR ''*'' \<and> quantifier_char CHR ''+'' \<and>
      CHR ''$'' \<notin> set ''ab'' \<and> CHR 0x00 \<notin> set ''ab''"
    by (simp add: in_grammar_def quantifier_char_def isalpha_def isdigit_def tolower_def)
  then show ?thesis
    using malformed_patterns_rejected[of "CHR ''.''" "''ab''" "''c''" "CHR ''*''" "CHR ''+''"]
    by simp
qed

text \<open>
  C9 (every operand index is smaller than the index of its node, and the highest-indexed
  node of a successfully parsed tree is its root). The first holds for every pattern.
  The second does not: on \<open>a(b\<close> the group fails at the missing \<open>)\<close> inside the condition
  of the concatenation loop, which only ends the loop: the parser returns true, and the
  arena holds the two atoms, neither an operand of the other. Node 1 is not the root of a
  tree that contains node 0, and the machine compiled from the tree of \<open>^a(b\<close> has lost
  the \<open>a\<close>: it matches \<open>b\<close>.
\<close>

theorem unmatched_group_leaves_two_roots:
  "operands_below (nodes (snd (parse_pattern p))) \<and>
   parse_pattern ''a(b'' = (True, \<lparr>flags = 0, nodes = [Atom CHR ''a'', Atom CHR ''b'']\<rparr>) \<and>
   roots (nodes (snd (parse_pattern ''a(b''))) = [0, 1] \<and>
   run ''^a(b'' ''b'' beyond = Some (Inr True)"
proof -
  have "run ''^a(b'' ''b'' beyond = Some (Inr True)"
    by (simp add: parser_eval compiler_eval engine_eval)
  moreover have "parse_pattern ''a(b'' =
      (True, \<lparr>flags = 0, nodes = [Atom CHR ''a'', Atom CHR ''b'']\<rparr>)"
    by (simp add: parser_eval)
  moreover have "roots (nodes (snd (parse_pattern ''a(b''))) = [0, 1]"
    by (simp add: parser_eval roots_def has_parent_def upt_rec)
  ultimately show ?thesis
    using parse_pattern_operands_below[of p] by blast
qed

theorem unmatched_group_leaves_two_roots_witness:
  "nodes (snd (parse_pattern ''(a|b)c'')) =
     [Atom CHR ''a'', Atom CHR ''b'', Alternation 0 1, Atom CHR ''c'', Concatenation 2 3] \<and>
   operands_below
     [Atom CHR ''a'', Atom CHR ''b'', Alternation 0 1, Atom CHR ''c'', Concatenation 2 3]"
proof -
  have h: "nodes (snd (parse_pattern ''(a|b)c'')) =
     [Atom CHR ''a'', Atom CHR ''b'', Alternation 0 1, Atom CHR ''c'', Concatenation 2 3]"
    by (simp add: parser_eval)
  from unmatched_group_leaves_two_roots[of "''(a|b)c''"] h show ?thesis
    by simp
qed

text \<open>
  C10 (the verdict of \<open>execute\<close> is a function of the machine and the text alone). What
  the engine and the stamps held before does not count: two engines whose machines
  differ in their stamps only return the same on the same text and the same bytes after
  its terminator, whatever their counters, frontier vectors and pointers, and so does an
  engine that an earlier run has left. But the bytes after the terminator do count,
  because \<open>step\<close> reads them: on the machine compiled from \<open>a\<close>, a run on the text \<open>c\<close>
  returns true when \<open>a\<close> follows the terminator, and the next run of the same engine on
  the text \<open>c\<close> returns false when 0x80 follows it.
\<close>

theorem execute_deterministic_but_for_memory:
  "(clear_stamps (e_machine e1) = clear_stamps (e_machine e2)
      \<longrightarrow> execute e1 text beyond = execute e2 text beyond) \<and>
   (execute e text0 beyond0 = Some (Inr (v0, e0))
      \<longrightarrow> execute e0 text beyond = execute e text beyond) \<and>
   (\<exists>m r1 r2. compile (snd (parse_pattern ''a'')) = Some (Inr m) \<and>
      execute (new_engine m) ''c'' (filled CHR ''a'') = Some (Inr (True, r1)) \<and>
      execute r1 ''c'' (filled (CHR 0x80)) = Some (Inr (False, r2)))"
proof -
  have t: "run ''a'' ''c'' (filled CHR ''a'') = Some (Inr True)"
    by (simp add: parser_eval compiler_eval engine_eval filled_def)
  have f: "run ''a'' ''c'' (filled (CHR 0x80)) = Some (Inr False)"
    by (simp add: parser_eval compiler_eval engine_eval filled_def)
  obtain m where m: "compile (snd (parse_pattern ''a'')) = Some (Inr m)"
    using t
    by (cases "compile (snd (parse_pattern ''a''))";
        cases "the (compile (snd (parse_pattern ''a'')))") (auto simp: run_def)
  from t m have mt: "matches m ''c'' (filled CHR ''a'') = Some (Inr True)"
    by (simp add: run_def)
  from f m have mf: "matches m ''c'' (filled (CHR 0x80)) = Some (Inr False)"
    by (simp add: run_def)
  from matches_verdict[OF mt] obtain r1 where
    r1: "execute (new_engine m) ''c'' (filled CHR ''a'') = Some (Inr (True, r1))" by blast
  from matches_verdict[OF mf] obtain r2 where
    r2: "execute (new_engine m) ''c'' (filled (CHR 0x80)) = Some (Inr (False, r2))" by blast
  from execute_reset[OF execute_frame[OF r1]] r2
  have "execute r1 ''c'' (filled (CHR 0x80)) = Some (Inr (False, r2))"
    by simp
  with m r1 have "\<exists>m r1 r2. compile (snd (parse_pattern ''a'')) = Some (Inr m) \<and>
      execute (new_engine m) ''c'' (filled CHR ''a'') = Some (Inr (True, r1)) \<and>
      execute r1 ''c'' (filled (CHR 0x80)) = Some (Inr (False, r2))"
    by blast
  then show ?thesis
    using execute_reset execute_frame by blast
qed

theorem execute_deterministic_but_for_memory_witness:
  "clear_stamps (e_machine used_engine) = clear_stamps (e_machine (new_engine anchored_a)) \<and>
   execute used_engine ''ab'' (filled CHR 0x00) =
     execute (new_engine anchored_a) ''ab'' (filled CHR 0x00) \<and>
   execute (new_engine anchored_a) ''a'' (filled CHR 0x00) = Some (Inr (True, used_engine))"
proof -
  have h1: "clear_stamps (e_machine used_engine) = clear_stamps (e_machine (new_engine anchored_a))"
    by (simp add: used_engine_def new_engine_def anchored_a_def clear_stamps_def)
  have h2: "execute (new_engine anchored_a) ''a'' (filled CHR 0x00) = Some (Inr (True, used_engine))"
    by (simp add: used_engine_def anchored_a_def engine_eval filled_def)
  from execute_deterministic_but_for_memory[of used_engine "new_engine anchored_a" "''ab''"
      "filled CHR 0x00" "new_engine anchored_a" "''a''" "filled CHR 0x00" True used_engine] h1 h2
  show ?thesis by simp
qed

end
